theory Spec2Isabelle
  imports Main "HOL-Library.Sublist"
begin

section \<open>JavaScript strings and paths\<close>

text \<open>
  Strings are lists of characters; a character outside ASCII is written as the bytes of
  its UTF-8 form. The operations below compare characters with each other and with the
  ASCII characters of a delimiter or of a path separator.
\<close>

text \<open>\<^verbatim>\<open>s.replace(/\\/g, '/')\<close>: every backslash becomes a slash.\<close>

definition slashes :: "string \<Rightarrow> string" where
  "slashes s = map (\<lambda>c. if c = CHR 0x5C then CHR ''/'' else c) s"

text \<open>\<^verbatim>\<open>s.startsWith(p)\<close>: the first \<open>length p\<close> characters of \<open>s\<close> are \<open>p\<close>.\<close>

definition startsWith :: "string \<Rightarrow> string \<Rightarrow> bool" where
  "startsWith s p = (take (length p) s = p)"

text \<open>
  \<^verbatim>\<open>s.indexOf(pat)\<close> as a split at the first occurrence of \<open>pat\<close>: the text before it
  and the text after it; \<open>None\<close> when \<open>pat\<close> does not occur (\<open>indexOf\<close> gives \<open>-1\<close>).
  \<open>strip_prefix pat s\<close> is the rest of \<open>s\<close> after a leading \<open>pat\<close>.
\<close>

fun strip_prefix :: "string \<Rightarrow> string \<Rightarrow> string option" where
  "strip_prefix [] s = Some s"
| "strip_prefix (p # ps) [] = None"
| "strip_prefix (p # ps) (c # cs) = (if p = c then strip_prefix ps cs else None)"

fun split_first :: "string \<Rightarrow> string \<Rightarrow> (string \<times> string) option" where
  "split_first pat [] = (if pat = [] then Some ([], []) else None)"
| "split_first pat (c # cs) =
     (case strip_prefix pat (c # cs) of
        Some r \<Rightarrow> Some ([], r)
      | None \<Rightarrow>
          (case split_first pat cs of
             None \<Rightarrow> None
           | Some (b, a) \<Rightarrow> Some (c # b, a)))"

definition includes_str :: "string \<Rightarrow> string \<Rightarrow> bool" where
  "includes_str s pat = (split_first pat s \<noteq> None)"

text \<open>
  \<^verbatim>\<open>s.trim()\<close>: white space is removed at both ends (the ASCII white space characters:
  tab, line feed, vertical tab, form feed, carriage return, space).
\<close>

definition isWhiteSpace :: "char \<Rightarrow> bool" where
  "isWhiteSpace c = ((of_char c :: nat) \<in> {9, 10, 11, 12, 13, 32})"

definition trim :: "string \<Rightarrow> string" where
  "trim s = rev (dropWhile isWhiteSpace (rev (dropWhile isWhiteSpace s)))"

text \<open>
  \<^verbatim>\<open>s.split(sep)\<close> for a separator of one character, and \<^verbatim>\<open>parts.join(sep)\<close>.
\<close>

fun split_on :: "char \<Rightarrow> string \<Rightarrow> string list" where
  "split_on sep [] = [[]]"
| "split_on sep (c # cs) =
     (if c = sep then [] # split_on sep cs
      else (case split_on sep cs of
              [] \<Rightarrow> [[c]]
            | seg # segs \<Rightarrow> (c # seg) # segs))"

fun join_with :: "string \<Rightarrow> string list \<Rightarrow> string" where
  "join_with sep [] = []"
| "join_with sep [s] = s"
| "join_with sep (s # t # ss) = s @ sep @ join_with sep (t # ss)"

section \<open>The host: Node's path and fs/promises modules, and the engine's case mapping\<close>

text \<open>
  The main process calls \<open>path.resolve\<close>, \<open>path.join\<close>, \<open>path.dirname\<close>, the promise
  API of \<open>fs\<close>, \<open>String.prototype.localeCompare\<close> and \<open>String.prototype.toLowerCase\<close>.
  They belong to the platform, not to the repository (the last two are computed from the
  Unicode tables of the engine, for every cased letter of every script), so the handlers
  take them as a record of operations on a disk of any type \<open>'d\<close>. A rejected promise is
  the \<open>Inl\<close> of a result.
\<close>

datatype js_error =
    Error string        \<comment> \<open>\<^verbatim>\<open>new Error(message)\<close>\<close>
  | SystemError string  \<comment> \<open>a rejection of an fs call, with its code\<close>
  | TypeError

record Dirent =
  d_name :: string
  d_isDirectory :: bool

record 'd host =
  resolve :: "string \<Rightarrow> string"
  join :: "string \<Rightarrow> string \<Rightarrow> string"
  dirname :: "string \<Rightarrow> string"
  localeCompare :: "string \<Rightarrow> string \<Rightarrow> int"
  toLowerCase :: "string \<Rightarrow> string"
  mkdir :: "string \<Rightarrow> 'd \<Rightarrow> js_error + 'd"
  writeFile :: "string \<Rightarrow> string \<Rightarrow> 'd \<Rightarrow> js_error + 'd"
  readFile :: "string \<Rightarrow> 'd \<Rightarrow> js_error + string"
  stat_size :: "string \<Rightarrow> 'd \<Rightarrow> js_error + nat"
  readdir :: "string \<Rightarrow> 'd \<Rightarrow> js_error + Dirent list"

section \<open>Path Guard (electron/main.ts, isWithinWorkspace)\<close>

text \<open>
  \<^verbatim>\<open>if (!workspacePath) return false\<close> holds for \<open>null\<close> and for the empty string.
\<close>

definition isWithinWorkspace :: "'d host \<Rightarrow> string option \<Rightarrow> string \<Rightarrow> bool" where
  "isWithinWorkspace h workspacePath targetPath =
     (case workspacePath of
        None \<Rightarrow> False
      | Some w \<Rightarrow>
          if w = [] then False
          else (let normalizedTarget = slashes (toLowerCase h (resolve h targetPath));
                    normalizedWorkspace = slashes (toLowerCase h (resolve h w))
                in startsWith normalizedTarget normalizedWorkspace))"

subsection \<open>The specification's normal form of a path\<close>

text \<open>
  The specification speaks of the absolute, separator-normalized, case-folded form of a
  path. These definitions follow its words and not the code of the guard: a path is made
  absolute and case-folded by the platform (\<open>path.resolve\<close>, \<open>toLowerCase\<close>); it is
  separator-normalized when the parts that a backslash separates are joined by a slash
  instead, so that \<open>/\<close> is the only separator left.
\<close>

definition separator_normalized :: "string \<Rightarrow> string" where
  "separator_normalized s = join_with ''/'' (split_on (CHR 0x5C) s)"

definition normalized_form :: "'d host \<Rightarrow> string \<Rightarrow> string" where
  "normalized_form h p = separator_normalized (toLowerCase h (resolve h p))"

subsection \<open>A POSIX instance of \<open>path.resolve\<close>, for running the guard\<close>

text \<open>
  Segments of an absolute path, kept on a stack: empty segments and \<open>.\<close> are skipped,
  \<open>..\<close> removes the last kept segment (and is dropped at the root).
\<close>

fun normalize_segments :: "string list \<Rightarrow> string list \<Rightarrow> string list" where
  "normalize_segments acc [] = rev acc"
| "normalize_segments acc (s # ss) =
     (if s = [] \<or> s = ''.'' then normalize_segments acc ss
      else if s = ''..'' then normalize_segments (case acc of [] \<Rightarrow> [] | _ # r \<Rightarrow> r) ss
      else normalize_segments (s # acc) ss)"

definition posix_resolve :: "string \<Rightarrow> string \<Rightarrow> string" where
  "posix_resolve cwd p =
     (let full = (case p of
                    [] \<Rightarrow> cwd
                  | c # _ \<Rightarrow> if c = CHR ''/'' then p else cwd @ ''/'' @ p)
      in CHR ''/'' # join_with ''/'' (normalize_segments [] (split_on (CHR ''/'') full)))"

subsection \<open>An in-memory host, for running the handlers on concrete inputs\<close>

text \<open>
  A disk is an association list from absolute paths to entries. Writing to a path that is
  a directory is rejected (\<open>EISDIR\<close>), making a directory where a file is in the way is
  rejected (\<open>EEXIST\<close>), reading a path that is absent is rejected (\<open>ENOENT\<close>).
\<close>

datatype mem_entry = MFile string | MDir

type_synonym mem_disk = "(string \<times> mem_entry) list"

fun mem_update :: "string \<Rightarrow> mem_entry \<Rightarrow> mem_disk \<Rightarrow> mem_disk" where
  "mem_update p e [] = [(p, e)]"
| "mem_update p e ((q, f) # r) = (if p = q then (p, e) # r else (q, f) # mem_update p e r)"

definition mem_mkdir :: "string \<Rightarrow> mem_disk \<Rightarrow> js_error + mem_disk" where
  "mem_mkdir p d =
     (case map_of d p of
        Some (MFile _) \<Rightarrow> Inl (SystemError ''EEXIST'')
      | _ \<Rightarrow> Inr (mem_update p MDir d))"

definition mem_writeFile :: "string \<Rightarrow> string \<Rightarrow> mem_disk \<Rightarrow> js_error + mem_disk" where
  "mem_writeFile p c d =
     (case map_of d p of
        Some MDir \<Rightarrow> Inl (SystemError ''EISDIR'')
      | _ \<Rightarrow> Inr (mem_update p (MFile c) d))"

definition mem_readFile :: "string \<Rightarrow> mem_disk \<Rightarrow> js_error + string" where
  "mem_readFile p d =
     (case map_of d p of
        Some (MFile c) \<Rightarrow> Inr c
      | Some MDir \<Rightarrow> Inl (SystemError ''EISDIR'')
      | None \<Rightarrow> Inl (SystemError ''ENOENT''))"

definition mem_stat_size :: "string \<Rightarrow> mem_disk \<Rightarrow> js_error + nat" where
  "mem_stat_size p d =
     (case map_of d p of
        Some (MFile c) \<Rightarrow> Inr (length c)
      | Some MDir \<Rightarrow> Inr 4096
      | None \<Rightarrow> Inl (SystemError ''ENOENT''))"

definition posix_dirname :: "string \<Rightarrow> string" where
  "posix_dirname p =
     (let d = join_with ''/'' (butlast (split_on (CHR ''/'') p))
      in if d = [] then (if startsWith p ''/'' then ''/'' else ''.'') else d)"

definition posix_basename :: "string \<Rightarrow> string" where
  "posix_basename p = last (split_on (CHR ''/'') p)"

definition mem_readdir :: "string \<Rightarrow> mem_disk \<Rightarrow> js_error + Dirent list" where
  "mem_readdir p d =
     (case map_of d p of
        Some MDir \<Rightarrow>
          Inr (map (\<lambda>(q, e). \<lparr>d_name = posix_basename q, d_isDirectory = (e = MDir)\<rparr>)
                 (filter (\<lambda>(q, e). q \<noteq> p \<and> posix_dirname q = p) d))
      | Some (MFile _) \<Rightarrow> Inl (SystemError ''ENOTDIR'')
      | None \<Rightarrow> Inl (SystemError ''ENOENT''))"

text \<open>
  Comparison by character code, standing for \<open>localeCompare\<close> on the ASCII names of the
  examples, and the case mapping of the ASCII letters, standing for \<open>toLowerCase\<close> on
  their ASCII paths.
\<close>

definition ascii_toLowerCase :: "string \<Rightarrow> string" where
  "ascii_toLowerCase s =
     map (\<lambda>c. if 65 \<le> (of_char c :: nat) \<and> (of_char c :: nat) \<le> 90
              then char_of ((of_char c :: nat) + 32) else c) s"

fun compare_nats :: "nat list \<Rightarrow> nat list \<Rightarrow> int" where
  "compare_nats [] [] = 0"
| "compare_nats [] (b # bs) = -1"
| "compare_nats (a # as) [] = 1"
| "compare_nats (a # as) (b # bs) =
     (if a < b then -1 else if b < a then 1 else compare_nats as bs)"

definition compare_codes :: "string \<Rightarrow> string \<Rightarrow> int" where
  "compare_codes a b = compare_nats (map of_char a) (map of_char b)"

definition mem_host :: "mem_disk host" where
  "mem_host =
     \<lparr>resolve = posix_resolve ''/'',
      join = (\<lambda>a b. posix_resolve ''/'' (a @ ''/'' @ b)),
      dirname = posix_dirname,
      localeCompare = compare_codes,
      toLowerCase = ascii_toLowerCase,
      mkdir = mem_mkdir,
      writeFile = mem_writeFile,
      readFile = mem_readFile,
      stat_size = mem_stat_size,
      readdir = mem_readdir\<rparr>"

section \<open>Edit Ledger, commit step (electron/main.ts, the ai:applyEdit handler)\<close>

text \<open>
  The handler makes the parent directory, writes the file and answers \<open>true\<close>; any
  exception is caught and answered with \<open>false\<close>. It does not call the Path Guard.
  (The notification it sends to the window does not touch the disk and is left out.)
\<close>

definition ai_applyEdit :: "'d host \<Rightarrow> string \<Rightarrow> string \<Rightarrow> 'd \<Rightarrow> bool \<times> 'd" where
  "ai_applyEdit h path content d =
     (case mkdir h (dirname h path) d of
        Inl e \<Rightarrow> (False, d)
      | Inr d1 \<Rightarrow>
          (case writeFile h path content d1 of
             Inl e \<Rightarrow> (False, d1)
           | Inr d2 \<Rightarrow> (True, d2)))"

section \<open>File handlers of the main process (electron/main.ts)\<close>

definition access_denied :: js_error where
  "access_denied = Error ''Access denied: path outside workspace''"


definition fs_writeFile ::
  "'d host \<Rightarrow> string option \<Rightarrow> string \<Rightarrow> string \<Rightarrow> 'd \<Rightarrow> (js_error + bool) \<times> 'd" where
  "fs_writeFile h workspacePath filePath content d =
     (if \<not> isWithinWorkspace h workspacePath filePath then (Inl access_denied, d)
      else (case writeFile h filePath content d of
              Inl e \<Rightarrow> (Inl e, d)
            | Inr d' \<Rightarrow> (Inr True, d')))"



subsection \<open>Directory listings (readDirSafe, fs:readDir)\<close>

datatype FileNode =
  FileNode (node_id: string) (node_name: string) (node_path: string) (isFolder: bool)
           (children: "FileNode list option") (isNew: bool) (isEditing: bool)

text \<open>
  \<open>Array.prototype.sort\<close> is stable; with a comparator it puts \<open>a\<close> before \<open>b\<close> when
  \<open>cmp a b < 0\<close> and keeps their order when \<open>cmp a b = 0\<close>. Insertion from the right
  computes that order.
\<close>

fun insort_cmp :: "('a \<Rightarrow> 'a \<Rightarrow> int) \<Rightarrow> 'a \<Rightarrow> 'a list \<Rightarrow> 'a list" where
  "insort_cmp cmp x [] = [x]"
| "insort_cmp cmp x (y # ys) = (if cmp x y \<le> 0 then x # y # ys else y # insort_cmp cmp x ys)"

definition js_sort :: "('a \<Rightarrow> 'a \<Rightarrow> int) \<Rightarrow> 'a list \<Rightarrow> 'a list" where
  "js_sort cmp xs = foldr (insort_cmp cmp) xs []"

definition compareNodes :: "(string \<Rightarrow> string \<Rightarrow> int) \<Rightarrow> FileNode \<Rightarrow> FileNode \<Rightarrow> int" where
  "compareNodes lc a b =
     (if isFolder a \<noteq> isFolder b then (if isFolder a then -1 else 1)
      else lc (node_name a) (node_name b))"

definition readDirSafe :: "'d host \<Rightarrow> string \<Rightarrow> 'd \<Rightarrow> FileNode list" where
  "readDirSafe h dirPath d =
     (case readdir h dirPath d of
        Inl e \<Rightarrow> []
      | Inr entries \<Rightarrow>
          js_sort (compareNodes (localeCompare h))
            (map (\<lambda>e. FileNode (join h dirPath (d_name e)) (d_name e) (join h dirPath (d_name e))
                          (d_isDirectory e) None False False)
               (filter (\<lambda>e. \<not> startsWith (d_name e) ''.'') entries)))"

definition fs_readDir :: "'d host \<Rightarrow> string option \<Rightarrow> string \<Rightarrow> 'd \<Rightarrow> js_error + FileNode list" where
  "fs_readDir h workspacePath dirPath d =
     (if \<not> isWithinWorkspace h workspacePath dirPath then Inl access_denied
      else Inr (readDirSafe h dirPath d))"

text \<open>The comparator is a total preorder: what sorting "by name" presupposes.\<close>

definition consistent_comparator :: "('a \<Rightarrow> 'a \<Rightarrow> int) \<Rightarrow> bool" where
  "consistent_comparator cmp =
     ((\<forall>a b. cmp a b \<le> 0 \<or> cmp b a \<le> 0)
      \<and> (\<forall>a b c. cmp a b \<le> 0 \<and> cmp b c \<le> 0 \<longrightarrow> cmp a c \<le> 0))"

section \<open>JavaScript values decoded from JSON\<close>

text \<open>
  What \<open>JSON.parse\<close> can return, and \<open>undefined\<close>. A number is kept by its decimal
  rendering (\<open>String(n)\<close>); the members of an object are kept in the order of the text.
\<close>

datatype jsval =
    Undefined
  | Null
  | Bool bool
  | Num string
  | Str string
  | Arr "jsval list"
  | Obj "(string \<times> jsval) list"

text \<open>
  \<open>v.k\<close> for the property names that the code reads (\<open>id\<close>, \<open>__proposed_edit__\<close>,
  \<open>type\<close>, \<open>path\<close>, \<open>originalContent\<close>, \<open>newContent\<close>): reading a property of
  \<open>null\<close> or \<open>undefined\<close> throws; an object gives its last member of that name; any
  other value has no such property. \<open>prop_of\<close> is the value read where the read cannot
  throw.
\<close>

fun get_prop :: "jsval \<Rightarrow> string \<Rightarrow> js_error + jsval" where
  "get_prop Undefined k = Inl TypeError"
| "get_prop Null k = Inl TypeError"
| "get_prop (Obj kvs) k = Inr (case map_of (rev kvs) k of None \<Rightarrow> Undefined | Some v \<Rightarrow> v)"
| "get_prop v k = Inr Undefined"

definition prop_of :: "jsval \<Rightarrow> string \<Rightarrow> jsval" where
  "prop_of v k = (case get_prop v k of Inl e \<Rightarrow> Undefined | Inr x \<Rightarrow> x)"

text \<open>
  Truthiness, and identity. Two values that were decoded by different calls of
  \<open>JSON.parse\<close> are identical, for \<open>===\<close> and as keys of a \<open>Map\<close>, when they are the
  same primitive value; an array or an object is a fresh one at every call and is
  identical to no value of another call.
\<close>

fun truthy :: "jsval \<Rightarrow> bool" where
  "truthy Undefined = False"
| "truthy Null = False"
| "truthy (Bool b) = b"
| "truthy (Num n) = (n \<noteq> ''0'')"
| "truthy (Str s) = (s \<noteq> [])"
| "truthy v = True"

fun is_object :: "jsval \<Rightarrow> bool" where
  "is_object (Arr xs) = True"
| "is_object (Obj kvs) = True"
| "is_object v = False"

definition same_value :: "jsval \<Rightarrow> jsval \<Rightarrow> bool" where
  "same_value a b = (a = b \<and> \<not> is_object a)"

definition hex_digit :: "nat \<Rightarrow> char" where
  "hex_digit n = (if n < 10 then char_of (48 + n) else char_of (87 + n))"

definition escape_char :: "char \<Rightarrow> string" where
  "escape_char c =
     (let n = (of_char c :: nat) in
      if n = 34 then [CHR 0x5C, CHR 0x22]
      else if n = 92 then [CHR 0x5C, CHR 0x5C]
      else if n = 8 then [CHR 0x5C, CHR ''b'']
      else if n = 12 then [CHR 0x5C, CHR ''f'']
      else if n = 10 then [CHR 0x5C, CHR ''n'']
      else if n = 13 then [CHR 0x5C, CHR ''r'']
      else if n = 9 then [CHR 0x5C, CHR ''t'']
      else if n < 32 then [CHR 0x5C, CHR ''u'', CHR ''0'', CHR ''0'', hex_digit (n div 16), hex_digit (n mod 16)]
      else [c])"

definition quote :: "string \<Rightarrow> string" where
  "quote s = CHR 0x22 # concat (map escape_char s) @ [CHR 0x22]"

fun JSON_stringify :: "jsval \<Rightarrow> string" where
  "JSON_stringify Undefined = ''undefined''"
| "JSON_stringify Null = ''null''"
| "JSON_stringify (Bool b) = (if b then ''true'' else ''false'')"
| "JSON_stringify (Num n) = n"
| "JSON_stringify (Str s) = quote s"
| "JSON_stringify (Arr xs) =
     ''['' @ join_with '','' (map (\<lambda>x. if x = Undefined then ''null'' else JSON_stringify x) xs) @ '']''"
| "JSON_stringify (Obj kvs) =
     ''{'' @ join_with '',''
              (map (\<lambda>(k, v). quote k @ '':'' @ JSON_stringify v)
                 (filter (\<lambda>(k, v). v \<noteq> Undefined) kvs)) @ ''}''"

section \<open>Chat store (src/stores/chatStore.ts): the Edit Ledger\<close>

datatype edit_status = Pending | Applied | Rejected

text \<open>
  The ledger entry. The fields copied from a decoded payload have the payload's run-time
  type \<open>'v\<close> (the interface declares them \<open>string\<close>). \<open>updateEditStatus\<close> compares
  ids with \<open>===\<close>, which is equality on strings and on the other primitive values.
\<close>

record 'v PendingEdit =
  pe_id :: 'v
  pe_type :: 'v
  pe_path :: 'v
  pe_originalContent :: 'v
  pe_newContent :: 'v
  pe_status :: edit_status

definition addPendingEdit :: "'v PendingEdit \<Rightarrow> 'v PendingEdit list \<Rightarrow> 'v PendingEdit list" where
  "addPendingEdit edit pendingEdits = pendingEdits @ [edit]"

definition updateEditStatus ::
  "'v \<Rightarrow> edit_status \<Rightarrow> 'v PendingEdit list \<Rightarrow> 'v PendingEdit list" where
  "updateEditStatus i st pendingEdits =
     map (\<lambda>e. if pe_id e = i then e\<lparr>pe_status := st\<rparr> else e) pendingEdits"

text \<open>
  \<^verbatim>\<open>pendingEdits.find(e => e.id === id)\<close>. The callers pass the id of a payload they
  have just decoded, so an entry whose id is an array or an object, decoded earlier, is
  never the one looked for.
\<close>

definition getPendingEdit :: "jsval PendingEdit list \<Rightarrow> jsval \<Rightarrow> jsval PendingEdit option" where
  "getPendingEdit pendingEdits i = find (\<lambda>e. same_value (pe_id e) i) pendingEdits"

subsection \<open>Accept and Reject (src/components/chat/MessageList.tsx)\<close>

text \<open>
  The state the two handlers act on: the disk (through the ai:applyEdit call) and the
  ledger. \<open>handleAcceptEdit\<close> marks the entry applied only when the call answered
  \<open>true\<close>.
\<close>

definition handleAcceptEdit ::
  "'d host \<Rightarrow> 'v \<Rightarrow> string \<Rightarrow> string \<Rightarrow> 'd \<times> 'v PendingEdit list \<Rightarrow> 'd \<times> 'v PendingEdit list" where
  "handleAcceptEdit h editId path newC s =
     (case ai_applyEdit h path newC (fst s) of
        (success, d') \<Rightarrow> (d', if success then updateEditStatus editId Applied (snd s) else snd s))"

definition handleRejectEdit ::
  "'v \<Rightarrow> 'd \<times> 'v PendingEdit list \<Rightarrow> 'd \<times> 'v PendingEdit list" where
  "handleRejectEdit editId s = (fst s, updateEditStatus editId Rejected (snd s))"

subsection \<open>The controls of a DiffBlock (src/components/chat/DiffBlock.tsx)\<close>

datatype action = Accept | Reject

text \<open>
  A block rendered with \<open>isApplied\<close> or \<open>isRejected\<close> shows a one-line notice and no
  button; otherwise it shows both buttons.
\<close>

definition DiffBlock_controls :: "bool \<Rightarrow> bool \<Rightarrow> action list" where
  "DiffBlock_controls isApplied isRejected =
     (if isApplied then [] else if isRejected then [] else [Accept, Reject])"

section \<open>Workspace store (the tree store): creation state and file-system notifications\<close>

text \<open>
  \<open>refreshTimeout\<close> is the module-level timer of the debounce: \<open>Some p\<close> when a refresh
  around the changed path \<open>p\<close> is scheduled.
\<close>

record WorkspaceState =
  rootPath :: "string option"
  tree :: "FileNode list"
  expandedFolders :: "string list"
  selectedPath :: "string option"
  editingNodeId :: "string option"
  isCreating :: bool
  refreshTimeout :: "string option"

text \<open>\<^verbatim>\<open>if (v)\<close> on a \<open>string | null\<close>: false for \<open>null\<close> and for the empty string.\<close>

definition truthy_string :: "string option \<Rightarrow> bool" where
  "truthy_string v = (case v of None \<Rightarrow> False | Some s \<Rightarrow> s \<noteq> [])"

fun addNodeInto :: "string \<Rightarrow> FileNode \<Rightarrow> FileNode \<Rightarrow> FileNode" where
  "addNodeInto parentPath newNode (FileNode i n p f ch nw ed) =
     (if p = parentPath
      then FileNode i n p f (Some (newNode # (case ch of None \<Rightarrow> [] | Some cs \<Rightarrow> cs))) nw ed
      else (case ch of
              Some cs \<Rightarrow> FileNode i n p f (Some (map (addNodeInto parentPath newNode) cs)) nw ed
            | None \<Rightarrow> FileNode i n p f ch nw ed))"

definition addNodeToTree :: "FileNode list \<Rightarrow> string \<Rightarrow> FileNode \<Rightarrow> string \<Rightarrow> FileNode list" where
  "addNodeToTree t parentPath newNode root =
     (if parentPath = [] \<or> parentPath = root then newNode # t
      else map (addNodeInto parentPath newNode) t)"

text \<open>\<open>now\<close> is the decimal rendering of \<open>Date.now()\<close>.\<close>

definition startCreateFile :: "string \<Rightarrow> string \<Rightarrow> WorkspaceState \<Rightarrow> WorkspaceState" where
  "startCreateFile parentPath now s =
     (case rootPath s of
        None \<Rightarrow> s
      | Some root \<Rightarrow>
          if root = [] then s
          else if isCreating s then s
          else (let cleanedTree = filter (\<lambda>n. \<not> isNew n) (tree s);
                    cleanedTreeDeep =
                      map (\<lambda>n. case n of FileNode i nm p f ch nw ed \<Rightarrow>
                                  (case ch of
                                     Some cs \<Rightarrow> FileNode i nm p f (Some (filter (\<lambda>c. \<not> isNew c) cs)) nw ed
                                   | None \<Rightarrow> n))
                          cleanedTree;
                    tempId = ''__temp_file_'' @ now;
                    tempNode = FileNode tempId ''untitled.txt'' tempId False None True False
                in s\<lparr>tree := addNodeToTree cleanedTreeDeep parentPath tempNode root,
                      editingNodeId := Some tempId,
                      selectedPath := Some tempId,
                      isCreating := True\<rparr>))"

definition stopEditing :: "WorkspaceState \<Rightarrow> WorkspaceState" where
  "stopEditing s = s\<lparr>editingNodeId := None\<rparr>"

text \<open>The check of \<open>handleFsChange\<close>: a new node at the top level, or among the children of a top-level node.\<close>

definition hasTempNodes :: "FileNode list \<Rightarrow> bool" where
  "hasTempNodes t =
     (list_ex isNew t
      \<or> list_ex (\<lambda>n. case children n of None \<Rightarrow> False | Some cs \<Rightarrow> list_ex isNew cs) t)"

definition handleFsChange :: "string \<Rightarrow> string \<Rightarrow> WorkspaceState \<Rightarrow> WorkspaceState" where
  "handleFsChange event changedPath s =
     (if truthy_string (editingNodeId s) \<or> hasTempNodes (tree s) then s
      else s\<lparr>refreshTimeout := Some changedPath\<rparr>)"

text \<open>The claim's wording: a node with the new-node marker anywhere in the tree.\<close>

fun new_node_within :: "FileNode \<Rightarrow> bool" where
  "new_node_within (FileNode i n p f ch nw ed) =
     (nw \<or> (case ch of None \<Rightarrow> False | Some cs \<Rightarrow> list_ex new_node_within cs))"

definition new_node_anywhere :: "FileNode list \<Rightarrow> bool" where
  "new_node_anywhere t = list_ex new_node_within t"

definition example_workspace :: WorkspaceState where
  "example_workspace =
     \<lparr>rootPath = Some ''/w'',
      tree = [FileNode ''/w/src'' ''src'' ''/w/src'' True
                (Some [FileNode ''/w/src/lib'' ''lib'' ''/w/src/lib'' True (Some []) False False])
                False False],
      expandedFolders = [''/w/src'', ''/w/src/lib''],
      selectedPath = None,
      editingNodeId = None,
      isCreating = False,
      refreshTimeout = None\<rparr>"

section \<open>Conversation history (src/stores/chatStore.ts) and the request (ai:sendMessage)\<close>

datatype role = User | Model

record Message =
  m_id :: string
  m_role :: role
  m_text :: string
  m_images :: "string list"

record ChatSession =
  s_id :: string
  s_title :: string
  s_messages :: "Message list"

record ChatStore =
  sessions :: "ChatSession list"
  activeSessionId :: "string option"

datatype api_role = ApiUser | ApiAssistant

definition getActiveSession :: "ChatStore \<Rightarrow> ChatSession option" where
  "getActiveSession st = find (\<lambda>s. Some (s_id s) = activeSessionId st) (sessions st)"

definition getConversationHistory :: "ChatStore \<Rightarrow> (api_role \<times> string) list" where
  "getConversationHistory st =
     (case getActiveSession st of
        None \<Rightarrow> []
      | Some session \<Rightarrow>
          map (\<lambda>m. (if m_role m = Model then ApiAssistant else ApiUser, m_text m))
            (filter (\<lambda>m. m_id m \<noteq> ''welcome'' \<and> trim (m_text m) \<noteq> []) (s_messages session)))"

section \<open>Marker Codec, decoding (src/components/chat/MessageList.tsx, parseMessageContent)\<close>

datatype marker = DIFF_BLOCK | TOOL_STATUS

fun open_tag :: "marker \<Rightarrow> string" where
  "open_tag DIFF_BLOCK = ''[DIFF_BLOCK]''"
| "open_tag TOOL_STATUS = ''[TOOL_STATUS]''"

fun close_tag :: "marker \<Rightarrow> string" where
  "close_tag DIFF_BLOCK = ''[/DIFF_BLOCK]''"
| "close_tag TOOL_STATUS = ''[/TOOL_STATUS]''"

lemma strip_prefix_append: "strip_prefix pat s = Some r \<longleftrightarrow> s = pat @ r"
  by (induction pat s rule: strip_prefix.induct) auto

lemma split_first_length:
  "split_first pat s = Some (b, a) \<Longrightarrow> length s = length b + length pat + length a"
proof (induction s arbitrary: b a)
  case Nil
  then show ?case by (simp split: if_splits)
next
  case (Cons c cs)
  show ?case
  proof (cases "strip_prefix pat (c # cs)")
    case (Some r)
    with Cons.prems have "b = []" "a = r" by simp_all
    with Some show ?thesis by (simp add: strip_prefix_append)
  next
    case None
    with Cons.prems obtain b' where "split_first pat cs = Some (b', a)" and "b = c # b'"
      by (auto split: option.splits)
    with Cons.IH show ?thesis by simp
  qed
qed

text \<open>
  The loop \<^verbatim>\<open>while ((match = regex.exec(text)) !== null)\<close> for the expression
  \<^verbatim>\<open>/\[TAG\]([\s\S]*?)\[\/TAG\]/g\<close>: the next match starts at the first opening tag at or
  after \<open>lastIndex\<close> and ends with the first closing tag after it; without a closing tag
  there is no further match. The result lists the captured bodies (\<open>match[1]\<close>);
  \<open>match[0]\<close> is the body between its two tags.
\<close>

function exec_all :: "marker \<Rightarrow> string \<Rightarrow> string list" where
  "exec_all m s =
     (case split_first (open_tag m) s of
        None \<Rightarrow> []
      | Some (pre, r) \<Rightarrow>
          (case split_first (close_tag m) r of
             None \<Rightarrow> []
           | Some (body, r') \<Rightarrow> body # exec_all m r'))"
  by pat_completeness auto
termination
proof (relation "measure (\<lambda>(m, s). length s)")
  show "wf (measure (\<lambda>(m, s). length s))" by simp
next
  fix m s x2 pre r x2a body r'
  assume "split_first (open_tag m) s = Some x2" "(pre, r) = x2"
    "split_first (close_tag m) r = Some x2a" "(body, r') = x2a"
  then have "length s = length pre + length (open_tag m) + length r"
    and "length r = length body + length (close_tag m) + length r'"
    using split_first_length by metis+
  moreover have "0 < length (open_tag m)" by (cases m) simp_all
  ultimately show "((m, r'), (m, s)) \<in> measure (\<lambda>(m, s). length s)" by simp
qed

declare exec_all.simps [simp del]

definition whole_match :: "marker \<Rightarrow> string \<Rightarrow> string" where
  "whole_match m body = open_tag m @ body @ close_tag m"

text \<open>
  \<^verbatim>\<open>s.replace(pat, rep)\<close> with a string pattern replaces the first occurrence; in the
  replacement \<^verbatim>\<open>$$\<close> stands for a dollar sign, \<^verbatim>\<open>$&\<close> for the matched text,
  \<^verbatim>\<open>$`\<close> for the text before the match and \<^verbatim>\<open>$'\<close> for the text after it.
\<close>

fun expand_replacement :: "string \<Rightarrow> string \<Rightarrow> string \<Rightarrow> string \<Rightarrow> string" where
  "expand_replacement matched pre post [] = []"
| "expand_replacement matched pre post [c] = [c]"
| "expand_replacement matched pre post (c # d # r) =
     (if c = CHR ''$'' \<and> d = CHR ''$'' then CHR ''$'' # expand_replacement matched pre post r
      else if c = CHR ''$'' \<and> d = CHR ''&'' then matched @ expand_replacement matched pre post r
      else if c = CHR ''$'' \<and> d = CHR 0x60 then pre @ expand_replacement matched pre post r
      else if c = CHR ''$'' \<and> d = CHR 0x27 then post @ expand_replacement matched pre post r
      else c # expand_replacement matched pre post (d # r))"

definition replace_str :: "string \<Rightarrow> string \<Rightarrow> string \<Rightarrow> string" where
  "replace_str s pat rep =
     (case split_first pat s of
        None \<Rightarrow> s
      | Some (pre, post) \<Rightarrow> pre @ expand_replacement pat pre post rep @ post)"

text \<open>
  \<open>JSON.parse\<close> is a parameter: \<open>None\<close> when it throws. The first loop collects the
  parsed proposals and removes each parsed marker from the clean text.
\<close>

definition edit_step ::
  "(string \<Rightarrow> jsval option) \<Rightarrow> string \<times> jsval list \<Rightarrow> string \<Rightarrow> string \<times> jsval list" where
  "edit_step JSON_parse acc body =
     (case JSON_parse body of
        None \<Rightarrow> acc
      | Some editData \<Rightarrow>
          (replace_str (fst acc) (whole_match DIFF_BLOCK body) [], snd acc @ [editData]))"

text \<open>
  A \<open>Map\<close> in insertion order. \<open>set\<close> on a key that is present (same value, and not an
  object, since every parsed object is a fresh one) replaces the value in place.
\<close>

fun map_set :: "(jsval \<times> jsval) list \<Rightarrow> jsval \<Rightarrow> jsval \<Rightarrow> (jsval \<times> jsval) list" where
  "map_set [] k v = [(k, v)]"
| "map_set ((k', v') # r) k v =
     (if same_value k' k then (k', v) # r else (k', v') # map_set r k v)"

text \<open>
  The second loop: reading \<open>statusData.id\<close> of \<open>null\<close> throws inside the \<open>try\<close>, so such a
  payload is skipped like one that does not parse.
\<close>

definition status_step ::
  "(string \<Rightarrow> jsval option) \<Rightarrow> string \<times> (jsval \<times> jsval) list \<Rightarrow> string
     \<Rightarrow> string \<times> (jsval \<times> jsval) list" where
  "status_step JSON_parse acc body =
     (case JSON_parse body of
        None \<Rightarrow> acc
      | Some statusData \<Rightarrow>
          (case get_prop statusData ''id'' of
             Inl e \<Rightarrow> acc
           | Inr k \<Rightarrow>
               (replace_str (fst acc) (whole_match TOOL_STATUS body) [],
                map_set (snd acc) k statusData)))"

fun is_Str :: "jsval \<Rightarrow> bool" where
  "is_Str (Str s) = True"
| "is_Str v = False"

text \<open>
  The first error of a list of results, or all their values.
\<close>

fun collect :: "('e + 'a) list \<Rightarrow> 'e + 'a list" where
  "collect [] = Inr []"
| "collect (Inl e # rs) = Inl e"
| "collect (Inr x # rs) = (case collect rs of Inl e \<Rightarrow> Inl e | Inr xs \<Rightarrow> Inr (x # xs))"

text \<open>
  \<open>ToString\<close> of a decoded value, which \<open>localeCompare\<close> applies to its argument. An
  array is joined with commas, \<open>null\<close> and \<open>undefined\<close> elements giving the empty
  string. An object gives \<^verbatim>\<open>[object Object]\<close>, unless it has a member \<open>toString\<close> of its
  own: no decoded value is a function, so that member hides the inherited method and the
  conversion throws a \<open>TypeError\<close>.
\<close>

fun to_string :: "jsval \<Rightarrow> js_error + string" where
  "to_string Undefined = Inr ''undefined''"
| "to_string Null = Inr ''null''"
| "to_string (Bool b) = Inr (if b then ''true'' else ''false'')"
| "to_string (Num n) = Inr n"
| "to_string (Str s) = Inr s"
| "to_string (Arr xs) =
     (case collect (map (\<lambda>x. if x = Undefined \<or> x = Null then Inr [] else to_string x) xs) of
        Inl e \<Rightarrow> Inl e
      | Inr parts \<Rightarrow> Inr (join_with '','' parts))"
| "to_string (Obj kvs) =
     (if ''toString'' \<in> fst ` set kvs then Inl TypeError else Inr ''[object Object]'')"

text \<open>
  The comparator \<^verbatim>\<open>(a, b) => a.id.localeCompare(b.id)\<close>: only a string has the method
  \<open>localeCompare\<close>, so the call throws a \<open>TypeError\<close> when \<open>a.id\<close> is anything else; the
  argument \<open>b.id\<close> is converted to a string.
\<close>

definition compare_by_id ::
  "(string \<Rightarrow> string \<Rightarrow> int) \<Rightarrow> jsval \<Rightarrow> jsval \<Rightarrow> js_error + int" where
  "compare_by_id lc a b =
     (case prop_of a ''id'' of
        Str s \<Rightarrow> (case to_string (prop_of b ''id'') of Inl e \<Rightarrow> Inl e | Inr t \<Rightarrow> Inr (lc s t))
      | _ \<Rightarrow> Inl TypeError)"

text \<open>
  \<open>Array.prototype.sort\<close> with a comparator that may throw. The sort of the engine (V8,
  in Electron) is stable and calls the comparator with the later value first and an
  earlier one second, beginning with the second value against the first; every value
  but the first is passed as \<open>a\<close> at least once, and the first never is. Insertion of
  each value, in turn, into the sorted values before it has these calls: \<open>insert_later\<close>
  takes the sorted values with the last one first. An exception of the comparator ends
  the sort. With fewer than two values the comparator is not called.
\<close>

fun insert_later :: "('a \<Rightarrow> 'a \<Rightarrow> js_error + int) \<Rightarrow> 'a \<Rightarrow> 'a list \<Rightarrow> js_error + 'a list" where
  "insert_later cmp x [] = Inr [x]"
| "insert_later cmp x (y # ys) =
     (case cmp x y of
        Inl e \<Rightarrow> Inl e
      | Inr c \<Rightarrow>
          if c < 0
          then (case insert_later cmp x ys of Inl e \<Rightarrow> Inl e | Inr r \<Rightarrow> Inr (y # r))
          else Inr (x # y # ys))"

fun sort_from :: "('a \<Rightarrow> 'a \<Rightarrow> js_error + int) \<Rightarrow> 'a list \<Rightarrow> 'a list \<Rightarrow> js_error + 'a list" where
  "sort_from cmp acc [] = Inr (rev acc)"
| "sort_from cmp acc (x # xs) =
     (case insert_later cmp x acc of
        Inl e \<Rightarrow> Inl e
      | Inr acc' \<Rightarrow> sort_from cmp acc' xs)"

text \<open>\<^verbatim>\<open>values.sort((a, b) => a.id.localeCompare(b.id))\<close>\<close>

definition sort_statuses :: "(string \<Rightarrow> string \<Rightarrow> int) \<Rightarrow> jsval list \<Rightarrow> js_error + jsval list" where
  "sort_statuses lc vals = sort_from (compare_by_id lc) [] vals"

record decoded =
  cleanText :: string
  edits :: "jsval list"
  toolStatuses :: "jsval list"

definition parseMessageContent ::
  "(string \<Rightarrow> string \<Rightarrow> int) \<Rightarrow> (string \<Rightarrow> jsval option) \<Rightarrow> string \<Rightarrow> js_error + decoded" where
  "parseMessageContent lc JSON_parse text =
     (let (clean1, es) = foldl (edit_step JSON_parse) (text, []) (exec_all DIFF_BLOCK text);
          (clean2, toolStatusesMap) =
             foldl (status_step JSON_parse) (clean1, []) (exec_all TOOL_STATUS text)
      in case sort_statuses lc (map snd toolStatusesMap) of
           Inl e \<Rightarrow> Inl e
         | Inr vals \<Rightarrow>
             Inr \<lparr>cleanText = trim clean2, edits = es, toolStatuses = vals\<rparr>)"

subsection \<open>The status payloads of a text, for stating what the map holds\<close>

text \<open>The key and payload that one status body contributes to the map, if any.\<close>

definition status_entry :: "(string \<Rightarrow> jsval option) \<Rightarrow> string \<Rightarrow> (jsval \<times> jsval) option" where
  "status_entry JSON_parse body =
     (case JSON_parse body of
        None \<Rightarrow> None
      | Some statusData \<Rightarrow>
          (case get_prop statusData ''id'' of Inl e \<Rightarrow> None | Inr k \<Rightarrow> Some (k, statusData)))"

definition status_entries :: "(string \<Rightarrow> jsval option) \<Rightarrow> string \<Rightarrow> (jsval \<times> jsval) list" where
  "status_entries JSON_parse text = List.map_filter (status_entry JSON_parse) (exec_all TOOL_STATUS text)"

definition map_set_all :: "(jsval \<times> jsval) list \<Rightarrow> (jsval \<times> jsval) list \<Rightarrow> (jsval \<times> jsval) list" where
  "map_set_all m es = foldl (\<lambda>m (k, v). map_set m k v) m es"

definition payload_id :: "jsval \<Rightarrow> jsval" where
  "payload_id v = prop_of v ''id''"

fun distinct_keys :: "(jsval \<times> jsval) list \<Rightarrow> bool" where
  "distinct_keys [] = True"
| "distinct_keys ((k, v) # r) = ((\<forall>e \<in> set r. \<not> same_value k (fst e)) \<and> distinct_keys r)"


definition status_payloads :: "(string \<Rightarrow> jsval option) \<Rightarrow> string \<Rightarrow> jsval list" where
  "status_payloads JSON_parse text = map snd (status_entries JSON_parse text)"

text \<open>
  The ids, in the order of the map, with which the sort returns: fewer than two, or
  strings after a first one that can be converted to a string.
\<close>

fun sortable_ids :: "jsval list \<Rightarrow> bool" where
  "sortable_ids (k # k' # ks) = (\<not> isl (to_string k) \<and> list_all is_Str (k' # ks))"
| "sortable_ids ks = True"

subsection \<open>Registration of decoded proposals (the effect of MessageItem)\<close>

text \<open>
  The effect walks the decoded proposals; one that carries the flag and whose id is not
  found in the ledger is added as pending. Reading the flag of \<open>null\<close> throws and ends
  the walk.
\<close>

fun register_edits ::
  "jsval list \<Rightarrow> jsval PendingEdit list \<Rightarrow> js_error option \<times> jsval PendingEdit list" where
  "register_edits [] ledger = (None, ledger)"
| "register_edits (edit # rest) ledger =
     (case get_prop edit ''__proposed_edit__'' of
        Inl e \<Rightarrow> (Some e, ledger)
      | Inr flag \<Rightarrow>
          if truthy flag \<and> getPendingEdit ledger (prop_of edit ''id'') = None
          then register_edits rest
                 (addPendingEdit
                    \<lparr>pe_id = prop_of edit ''id'', pe_type = prop_of edit ''type'',
                     pe_path = prop_of edit ''path'',
                     pe_originalContent = prop_of edit ''originalContent'',
                     pe_newContent = prop_of edit ''newContent'', pe_status = Pending\<rparr>
                    ledger)
          else register_edits rest ledger)"

subsection \<open>MessageItem and its DiffBlocks (MessageList.tsx, DiffBlock.tsx)\<close>

text \<open>
  What a \<open>DiffBlock\<close> is rendered with. \<open>MessageItem\<close> looks the id of the decoded edit
  up in the ledger while it renders, and passes the outcome as \<open>isApplied\<close> and
  \<open>isRejected\<close>. The block calls \<open>split\<close> on both contents and on the path it shows
  (\<^verbatim>\<open>edit.relativePath || edit.path\<close>), which throws unless they are strings.
\<close>

record rendered_block =
  rb_editId :: jsval
  rb_fullPath :: jsval
  rb_newContent :: string
  rb_isApplied :: bool
  rb_isRejected :: bool

definition render_DiffBlock :: "jsval PendingEdit list \<Rightarrow> jsval \<Rightarrow> js_error + rendered_block" where
  "render_DiffBlock pendingEdits edit =
     (case get_prop edit ''id'' of
        Inl e \<Rightarrow> Inl e
      | Inr i \<Rightarrow>
          (let pendingEdit = getPendingEdit pendingEdits i;
               filePath = (if truthy (prop_of edit ''relativePath'')
                           then prop_of edit ''relativePath'' else prop_of edit ''path'')
           in case (prop_of edit ''originalContent'', prop_of edit ''newContent'', filePath) of
                (Str originalC, Str newC, Str shownPath) \<Rightarrow>
                  Inr \<lparr>rb_editId = i, rb_fullPath = prop_of edit ''path'', rb_newContent = newC,
                       rb_isApplied = (map_option pe_status pendingEdit = Some Applied),
                       rb_isRejected = (map_option pe_status pendingEdit = Some Rejected)\<rparr>
              | _ \<Rightarrow> Inl TypeError))"

text \<open>
  One render of \<open>MessageItem\<close>: the decoded proposals, which its effect registers after
  the render, and the blocks it shows (none for a message of the user).
\<close>

definition render_MessageItem ::
  "(string \<Rightarrow> string \<Rightarrow> int) \<Rightarrow> (string \<Rightarrow> jsval option) \<Rightarrow> jsval PendingEdit list \<Rightarrow> Message
     \<Rightarrow> js_error + jsval list \<times> rendered_block list" where
  "render_MessageItem lc JSON_parse pendingEdits message =
     (case parseMessageContent lc JSON_parse (m_text message) of
        Inl e \<Rightarrow> Inl e
      | Inr r \<Rightarrow>
          if m_role message = User then Inr (edits r, [])
          else (case collect (map (render_DiffBlock pendingEdits) (edits r)) of
                  Inl e \<Rightarrow> Inl e
                | Inr blocks \<Rightarrow> Inr (edits r, blocks)))"

text \<open>
  The chat panel with one message: the disk, the ledger, and what \<open>MessageItem\<close> showed
  at its last render, with the message it was rendered for.
\<close>

record 'd chat_ui =
  ui_disk :: 'd
  ui_pendingEdits :: "jsval PendingEdit list"
  ui_item :: "(Message \<times> rendered_block list) option"

text \<open>
  A render of \<open>MessageList\<close>. \<open>MessageItem\<close> is wrapped in \<open>React.memo\<close> and its props are
  the message, the two handlers (\<open>useCallback\<close> on the store's \<open>updateEditStatus\<close>) and the
  store's \<open>addPendingEdit\<close> and \<open>getPendingEdit\<close>; the functions are the same ones at every
  render, and the ledger is not a prop. So \<open>MessageItem\<close> is rendered again only for
  another message object; after a render its effect registers the decoded proposals.
\<close>

definition render_MessageList ::
  "(string \<Rightarrow> string \<Rightarrow> int) \<Rightarrow> (string \<Rightarrow> jsval option) \<Rightarrow> Message \<Rightarrow> 'd chat_ui \<Rightarrow> js_error + 'd chat_ui" where
  "render_MessageList lc JSON_parse message ui =
     (if map_option fst (ui_item ui) = Some message then Inr ui
      else (case render_MessageItem lc JSON_parse (ui_pendingEdits ui) message of
              Inl e \<Rightarrow> Inl e
            | Inr (es, blocks) \<Rightarrow>
                (case register_edits es (ui_pendingEdits ui) of
                   (Some e, pendingEdits) \<Rightarrow> Inl e
                 | (None, pendingEdits) \<Rightarrow>
                     Inr (ui\<lparr>ui_pendingEdits := pendingEdits, ui_item := Some (message, blocks)\<rparr>))))"

text \<open>
  \<open>onAccept(editId, fullPath, newContent)\<close> is \<open>handleAcceptEdit\<close>; a path that is not a
  string makes \<open>dirname\<close> throw in the handler of ai:applyEdit, which answers \<open>false\<close>
  before it touches the disk.
\<close>

definition onAccept ::
  "'d host \<Rightarrow> jsval \<Rightarrow> jsval \<Rightarrow> string \<Rightarrow> 'd \<times> jsval PendingEdit list \<Rightarrow> 'd \<times> jsval PendingEdit list" where
  "onAccept h editId fullPath newC s =
     (case fullPath of
        Str path \<Rightarrow> handleAcceptEdit h editId path newC s
      | _ \<Rightarrow> s)"

text \<open>
  A click on a button of the \<open>n\<close>-th block as it is shown. The handler runs if the block
  shows that button; its change of the store makes \<open>MessageList\<close> render again, with the
  same message object.
\<close>

definition click ::
  "'d host \<Rightarrow> (string \<Rightarrow> string \<Rightarrow> int) \<Rightarrow> (string \<Rightarrow> jsval option) \<Rightarrow> action \<Rightarrow> nat \<Rightarrow> 'd chat_ui
     \<Rightarrow> js_error + 'd chat_ui" where
  "click h lc JSON_parse act n ui =
     (case ui_item ui of
        None \<Rightarrow> Inr ui
      | Some (message, blocks) \<Rightarrow>
          if n < length blocks
             \<and> act \<in> set (DiffBlock_controls (rb_isApplied (blocks ! n)) (rb_isRejected (blocks ! n)))
          then (let b = blocks ! n;
                    s = (ui_disk ui, ui_pendingEdits ui);
                    s' = (case act of
                            Accept \<Rightarrow> onAccept h (rb_editId b) (rb_fullPath b) (rb_newContent b) s
                          | Reject \<Rightarrow> handleRejectEdit (rb_editId b) s)
                in render_MessageList lc JSON_parse message
                     (ui\<lparr>ui_disk := fst s', ui_pendingEdits := snd s'\<rparr>))
          else Inr ui)"

text \<open>
  A stand-in for \<open>JSON.parse\<close> on the texts of the examples: it recognises the compact
  serialisation of the listed values and rejects every other text.
\<close>

definition JSON_parse_among :: "jsval list \<Rightarrow> string \<Rightarrow> jsval option" where
  "JSON_parse_among vals s = find (\<lambda>v. JSON_stringify v = s) vals"

definition status_payload :: "jsval \<Rightarrow> jsval" where
  "status_payload i = Obj [(''id'', i), (''status'', Str ''running'')]"

section \<open>Tool Executor (electron/main.ts, executeAITool)\<close>

fun show_nat :: "nat \<Rightarrow> string" where
  "show_nat n =
     (if n < 10 then [char_of (48 + n)] else show_nat (n div 10) @ [char_of (48 + n mod 10)])"

definition padStart :: "nat \<Rightarrow> char \<Rightarrow> string \<Rightarrow> string" where
  "padStart n c s = replicate (n - length s) c @ s"

definition nl :: string where
  "nl = [CHR 0x0A]"

record tool_input =
  ti_path :: string
  ti_content :: string
  ti_edits :: "(string \<times> string) list"

definition message_of :: "js_error \<Rightarrow> string" where
  "message_of e = (case e of Error m \<Rightarrow> m | SystemError m \<Rightarrow> m | TypeError \<Rightarrow> ''TypeError'')"

text \<open>\<^verbatim>\<open>currentWorkspacePath ? join(currentWorkspacePath, p) : p\<close>\<close>

definition full_path :: "'d host \<Rightarrow> string option \<Rightarrow> string \<Rightarrow> string" where
  "full_path h currentWorkspacePath p =
     (case currentWorkspacePath of
        None \<Rightarrow> p
      | Some w \<Rightarrow> if w = [] then p else join h w p)"

text \<open>The loop over the requested replacements: the content so far and the count of matches.\<close>

fun apply_edits :: "(string \<times> string) list \<Rightarrow> string \<times> nat \<Rightarrow> string \<times> nat" where
  "apply_edits [] acc = acc"
| "apply_edits ((old_text, new_text) # rest) (newContent, editCount) =
     (if includes_str newContent old_text
      then apply_edits rest (replace_str newContent old_text new_text, editCount + 1)
      else apply_edits rest (newContent, editCount))"

definition proposedEdit :: "string \<Rightarrow> string \<Rightarrow> string \<Rightarrow> string \<Rightarrow> string \<Rightarrow> string \<Rightarrow> jsval" where
  "proposedEdit editId kind fullPath filePath originalC newC =
     Obj [(''__proposed_edit__'', Bool True), (''id'', Str editId), (''type'', Str kind),
          (''path'', Str fullPath), (''relativePath'', Str filePath),
          (''originalContent'', Str originalC), (''newContent'', Str newC)]"

definition diff_block :: "jsval \<Rightarrow> string" where
  "diff_block p = nl @ nl @ ''[DIFF_BLOCK]'' @ JSON_stringify p @ ''[/DIFF_BLOCK]'' @ nl @ nl"

definition warning_sign :: string where
  "warning_sign = [CHR 0xE2, CHR 0x9A, CHR 0xA0, CHR 0xEF, CHR 0xB8, CHR 0x8F]"

definition folder_icon :: string where
  "folder_icon = [CHR 0xF0, CHR 0x9F, CHR 0x93, CHR 0x81]"

definition page_icon :: string where
  "page_icon = [CHR 0xF0, CHR 0x9F, CHR 0x93, CHR 0x84]"

fun numberedLines :: "nat \<Rightarrow> string list \<Rightarrow> string list" where
  "numberedLines i [] = []"
| "numberedLines i (line # rest) =
     (padStart 4 (CHR '' '') (show_nat (i + 1)) @ '' | '' @ line) # numberedLines (i + 1) rest"

text \<open>
  \<open>now\<close> is the decimal rendering of \<open>Date.now()\<close> at the call. No tool writes to the
  disk and none calls the Path Guard; an exception becomes the text of an error result.
\<close>

definition executeAITool ::
  "'d host \<Rightarrow> string option \<Rightarrow> string \<Rightarrow> string \<Rightarrow> tool_input \<Rightarrow> 'd \<Rightarrow> string" where
  "executeAITool h currentWorkspacePath now toolName toolInput d =
     (let failed = (\<lambda>e. ''Error executing '' @ toolName @ '': '' @ message_of e) in
      if toolName = ''read_file'' then
        (let filePath = ti_path toolInput;
             fullPath = full_path h currentWorkspacePath filePath
         in case readFile h fullPath d of
              Inl e \<Rightarrow> failed e
            | Inr content \<Rightarrow>
                ''File: '' @ filePath @ nl @ nl
                  @ join_with nl (numberedLines 0 (split_on (CHR 0x0A) content)))
      else if toolName = ''list_directory'' then
        (let dirPath = ti_path toolInput;
             fullPath = (case currentWorkspacePath of
                           None \<Rightarrow> (if dirPath = [] then ''.'' else dirPath)
                         | Some w \<Rightarrow> if w = [] then (if dirPath = [] then ''.'' else dirPath)
                                     else join h w dirPath)
         in case readdir h fullPath d of
              Inl e \<Rightarrow> failed e
            | Inr entries \<Rightarrow>
                ''Directory: '' @ (if dirPath = [] then ''/'' else dirPath) @ nl @ nl
                  @ join_with nl
                      (map (\<lambda>entry. (if d_isDirectory entry then folder_icon else page_icon)
                                     @ '' '' @ d_name entry) entries))
      else if toolName = ''write_file'' then
        (let filePath = ti_path toolInput;
             newContent = ti_content toolInput;
             fullPath = full_path h currentWorkspacePath filePath;
             originalContent = (case readFile h fullPath d of Inl e \<Rightarrow> [] | Inr c \<Rightarrow> c);
             editId = ''edit-'' @ now
         in diff_block (proposedEdit editId ''write'' fullPath filePath originalContent newContent)
              @ ''I've prepared changes for **'' @ filePath
              @ ''**. Please review and accept or reject the edit above.'')
      else if toolName = ''edit_file'' then
        (let filePath = ti_path toolInput;
             fullPath = full_path h currentWorkspacePath filePath
         in case readFile h fullPath d of
              Inl e \<Rightarrow> failed e
            | Inr originalContent \<Rightarrow>
                (case apply_edits (ti_edits toolInput) (originalContent, 0) of
                   (newContent, editCount) \<Rightarrow>
                     if editCount = 0
                     then warning_sign @ '' No matches found in '' @ filePath
                            @ ''. The old_text must match exactly.''
                     else (let editId = ''edit-'' @ now
                           in diff_block (proposedEdit editId ''edit'' fullPath filePath
                                            originalContent newContent)
                                @ ''I've prepared '' @ show_nat editCount @ '' edit(s) for **''
                                @ filePath
                                @ ''**. Please review and accept or reject the changes above.'')))
      else ''Unknown tool: '' @ toolName)"

section \<open>Agent Orchestrator (electron/main.ts, ai:sendMessage)\<close>

datatype content_block = TextBlock string | ToolUseBlock string string tool_input

datatype user_block = ImageBlock string string | TextPart string

datatype api_content =
    Text string
  | UserBlocks "user_block list"
  | AssistantBlocks "content_block list"
  | ToolResults "(string \<times> string) list"

type_synonym api_message = "api_role \<times> api_content"

text \<open>
  An attached image is sent when it matches \<^verbatim>\<open>/^data:(image\/\w+);base64,(.+)$/\<close>.
\<close>

definition is_word_char :: "char \<Rightarrow> bool" where
  "is_word_char c =
     (let n = (of_char c :: nat)
      in (48 \<le> n \<and> n \<le> 57) \<or> (65 \<le> n \<and> n \<le> 90) \<or> (97 \<le> n \<and> n \<le> 122) \<or> n = 95)"

definition match_data_uri :: "string \<Rightarrow> (string \<times> string) option" where
  "match_data_uri s =
     (if startsWith s ''data:image/''
      then (let r = drop 11 s;
                w = takeWhile is_word_char r;
                rest = dropWhile is_word_char r;
                payload = drop 8 rest
            in if w \<noteq> [] \<and> startsWith rest '';base64,'' \<and> payload \<noteq> []
                  \<and> \<not> list_ex (\<lambda>c. c = CHR 0x0A \<or> c = CHR 0x0D) payload
               then Some (''image/'' @ w, payload) else None)
      else None)"

definition initial_apiMessages ::
  "(api_role \<times> string) list \<Rightarrow> string list \<Rightarrow> string \<Rightarrow> api_message list" where
  "initial_apiMessages conversationHistory images message =
     (let currentContent =
            List.map_filter (\<lambda>u. map_option (\<lambda>(mt, data). ImageBlock mt data) (match_data_uri u)) images
            @ (if message \<noteq> [] then [TextPart message] else [])
      in map (\<lambda>(r, c). (r, Text c)) conversationHistory
         @ [(ApiUser, (case currentContent of
                         [TextPart t] \<Rightarrow> Text message
                       | _ \<Rightarrow> UserBlocks currentContent))])"

record turn_state =
  fullText :: string
  chunks :: "string list"
  toolResults :: "(string \<times> string) list"

definition toolStatus :: "string \<Rightarrow> string \<Rightarrow> string \<Rightarrow> string \<Rightarrow> string \<Rightarrow> jsval" where
  "toolStatus i toolName path st msg =
     Obj [(''id'', Str i), (''toolName'', Str toolName), (''path'', Str path),
          (''status'', Str st), (''message'', Str msg)]"

definition edit_acknowledgement :: string where
  "edit_acknowledgement =
     ''Edit proposed successfully. The user will review and accept/reject the changes.''"

text \<open>
  The blocks of one response that stopped for tool use. Every \<open>ai:chunk\<close> sent to the
  window carries the whole text so far. \<open>now\<close> gives the clock reading at the execution
  of the tool call with a given id.
\<close>

fun process_blocks ::
  "'d host \<Rightarrow> string option \<Rightarrow> (string \<Rightarrow> string) \<Rightarrow> 'd \<Rightarrow> content_block list \<Rightarrow> turn_state \<Rightarrow> turn_state" where
  "process_blocks h cwp now d [] st = st"
| "process_blocks h cwp now d (TextBlock t # bs) st =
     process_blocks h cwp now d bs (st\<lparr>fullText := fullText st @ t\<rparr>)"
| "process_blocks h cwp now d (ToolUseBlock bid toolName toolInput # bs) st =
     (let toolStatusId = ''status-'' @ bid;
          runningStatus = toolStatus toolStatusId toolName (ti_path toolInput) ''running'' ''Executing...'';
          ft1 = fullText st @ nl @ nl @ ''[TOOL_STATUS]'' @ JSON_stringify runningStatus
                  @ ''[/TOOL_STATUS]'' @ nl @ nl;
          result = executeAITool h cwp (now bid) toolName toolInput d;
          successStatus =
            toolStatus toolStatusId toolName (ti_path toolInput)
              (if startsWith result ''Error'' then ''error'' else ''success'')
              (if includes_str result ''[DIFF_BLOCK]'' then ''Edit proposed'' else take 100 result);
          ft2 = ft1 @ ''[TOOL_STATUS]'' @ JSON_stringify successStatus @ ''[/TOOL_STATUS]''
      in if includes_str result ''[DIFF_BLOCK]''
         then process_blocks h cwp now d bs
                \<lparr>fullText = ft2 @ result,
                 chunks = chunks st @ [ft1, ft2, ft2 @ result],
                 toolResults = toolResults st @ [(bid, edit_acknowledgement)]\<rparr>
         else process_blocks h cwp now d bs
                \<lparr>fullText = ft2,
                 chunks = chunks st @ [ft1, ft2],
                 toolResults = toolResults st @ [(bid, result)]\<rparr>)"

text \<open>One round of the loop for a response that stopped for tool use.\<close>

definition tool_use_round ::
  "'d host \<Rightarrow> string option \<Rightarrow> (string \<Rightarrow> string) \<Rightarrow> 'd \<Rightarrow> content_block list
     \<Rightarrow> string \<times> api_message list \<Rightarrow> turn_state \<times> api_message list" where
  "tool_use_round h cwp now d blocks s =
     (let st = process_blocks h cwp now d blocks \<lparr>fullText = fst s, chunks = [], toolResults = []\<rparr>
      in (st, snd s @ [(ApiAssistant, AssistantBlocks blocks), (ApiUser, ToolResults (toolResults st))]))"

text \<open>Every text that a list of messages carries to the provider.\<close>

fun block_texts :: "content_block \<Rightarrow> string list" where
  "block_texts (TextBlock t) = [t]"
| "block_texts (ToolUseBlock bid toolName toolInput) = []"

fun content_texts :: "api_content \<Rightarrow> string list" where
  "content_texts (Text t) = [t]"
| "content_texts (UserBlocks bs) = concat (map (\<lambda>b. case b of TextPart t \<Rightarrow> [t] | ImageBlock mt data \<Rightarrow> []) bs)"
| "content_texts (AssistantBlocks bs) = concat (map block_texts bs)"
| "content_texts (ToolResults rs) = map snd rs"

definition provider_texts :: "api_message list \<Rightarrow> string list" where
  "provider_texts msgs = concat (map (\<lambda>m. content_texts (snd m)) msgs)"

definition has_marker :: "string \<Rightarrow> bool" where
  "has_marker s = (exec_all TOOL_STATUS s @ exec_all DIFF_BLOCK s \<noteq> [])"

section \<open>Example runs\<close>

definition start_turn :: turn_state where
  "start_turn = \<lparr>fullText = [], chunks = [], toolResults = []\<rparr>"

subsection \<open>A patch of app.js: one tool call in one round\<close>

definition plain_disk :: mem_disk where
  "plain_disk = [(''/w'', MDir), (''/w/app.js'', MFile ''let x = 1'')]"

definition plain_input :: tool_input where
  "plain_input = \<lparr>ti_path = ''app.js'', ti_content = [], ti_edits = [(''let x'', ''let y'')]\<rparr>"

definition plain_proposal :: jsval where
  "plain_proposal = proposedEdit ''edit-17'' ''edit'' ''/w/app.js'' ''app.js'' ''let x = 1'' ''let y = 1''"

definition plain_running :: jsval where
  "plain_running = toolStatus ''status-t1'' ''edit_file'' ''app.js'' ''running'' ''Executing...''"

definition plain_success :: jsval where
  "plain_success = toolStatus ''status-t1'' ''edit_file'' ''app.js'' ''success'' ''Edit proposed''"

definition plain_turn :: turn_state where
  "plain_turn =
     process_blocks mem_host (Some ''/w'') (\<lambda>i. ''17'') plain_disk
       [TextBlock ''Ok.'', ToolUseBlock ''t1'' ''edit_file'' plain_input] start_turn"

definition plain_parse :: "string \<Rightarrow> jsval option" where
  "plain_parse = JSON_parse_among [plain_proposal, plain_running, plain_success]"

definition plain_first_chunk :: string where
  "plain_first_chunk =
     ''Ok.'' @ nl @ nl @ ''[TOOL_STATUS]'' @ JSON_stringify plain_running @ ''[/TOOL_STATUS]'' @ nl @ nl"

definition plain_rest :: string where
  "plain_rest =
     ''[TOOL_STATUS]'' @ JSON_stringify plain_success @ ''[/TOOL_STATUS]''
       @ diff_block plain_proposal
       @ ''I've prepared 1 edit(s) for **app.js**. Please review and accept or reject the changes above.''"

text \<open>The chat store after that round, when the user sends the next message.\<close>

definition replay_store :: ChatStore where
  "replay_store =
     \<lparr>sessions =
        [\<lparr>s_id = ''s1'', s_title = ''New Chat'',
          s_messages =
            [\<lparr>m_id = ''welcome'', m_role = Model, m_text = ''Hi there.'', m_images = []\<rparr>,
             \<lparr>m_id = ''1'', m_role = User, m_text = ''rename x'', m_images = []\<rparr>,
             \<lparr>m_id = ''2'', m_role = Model, m_text = fullText plain_turn, m_images = []\<rparr>]\<rparr>],
      activeSessionId = Some ''s1''\<rparr>"

subsection \<open>A patch of a file that mentions the closing tag\<close>

definition tagged_disk :: mem_disk where
  "tagged_disk = [(''/w'', MDir), (''/w/notes.md'', MFile ''see [/DIFF_BLOCK] here'')]"

definition tagged_input :: tool_input where
  "tagged_input = \<lparr>ti_path = ''notes.md'', ti_content = [], ti_edits = [(''see'', ''note'')]\<rparr>"

definition tagged_proposal :: jsval where
  "tagged_proposal =
     proposedEdit ''edit-17'' ''edit'' ''/w/notes.md'' ''notes.md''
       ''see [/DIFF_BLOCK] here'' ''note [/DIFF_BLOCK] here''"

definition tagged_running :: jsval where
  "tagged_running = toolStatus ''status-t1'' ''edit_file'' ''notes.md'' ''running'' ''Executing...''"

definition tagged_success :: jsval where
  "tagged_success = toolStatus ''status-t1'' ''edit_file'' ''notes.md'' ''success'' ''Edit proposed''"

definition tagged_turn :: turn_state where
  "tagged_turn =
     process_blocks mem_host (Some ''/w'') (\<lambda>i. ''17'') tagged_disk
       [TextBlock ''Ok.'', ToolUseBlock ''t1'' ''edit_file'' tagged_input] start_turn"

definition tagged_parse :: "string \<Rightarrow> jsval option" where
  "tagged_parse = JSON_parse_among [tagged_proposal, tagged_running, tagged_success]"

subsection \<open>Two proposals that carry the same id\<close>

definition twin_a :: jsval where
  "twin_a = proposedEdit ''edit-17'' ''write'' ''/w/a'' ''a'' [] ''A''"

definition twin_b :: jsval where
  "twin_b = proposedEdit ''edit-17'' ''write'' ''/w/b'' ''b'' [] ''B''"

definition twin_text :: string where
  "twin_text = diff_block twin_a @ diff_block twin_b"

subsection \<open>A proposal whose id is an array, and two statuses whose ids are numbers\<close>

definition listed_proposal :: jsval where
  "listed_proposal =
     Obj [(''__proposed_edit__'', Bool True), (''id'', Arr [Num ''1'']), (''type'', Str ''write''),
          (''path'', Str ''/w/a''), (''originalContent'', Str []), (''newContent'', Str ''A'')]"

definition numbered_text :: string where
  "numbered_text =
     ''[TOOL_STATUS]'' @ JSON_stringify (status_payload (Num ''1'')) @ ''[/TOOL_STATUS]''
       @ ''[TOOL_STATUS]'' @ JSON_stringify (status_payload (Num ''2'')) @ ''[/TOOL_STATUS]''"

definition numbered_parse :: "string \<Rightarrow> jsval option" where
  "numbered_parse = JSON_parse_among [status_payload (Num ''1''), status_payload (Num ''2'')]"

subsection \<open>The chat panel showing the patch of app.js\<close>

definition plain_message :: Message where
  "plain_message = \<lparr>m_id = ''2'', m_role = Model, m_text = fullText plain_turn, m_images = []\<rparr>"

definition plain_entry :: "edit_status \<Rightarrow> jsval PendingEdit" where
  "plain_entry st =
     \<lparr>pe_id = Str ''edit-17'', pe_type = Str ''edit'', pe_path = Str ''/w/app.js'',
      pe_originalContent = Str ''let x = 1'', pe_newContent = Str ''let y = 1'', pe_status = st\<rparr>"

text \<open>The block of the proposal as the first render of the message shows it.\<close>

definition plain_block :: rendered_block where
  "plain_block =
     \<lparr>rb_editId = Str ''edit-17'', rb_fullPath = Str ''/w/app.js'', rb_newContent = ''let y = 1'',
      rb_isApplied = False, rb_isRejected = False\<rparr>"

definition plain_patched :: mem_disk where
  "plain_patched = [(''/w'', MDir), (''/w/app.js'', MFile ''let y = 1'')]"

definition plain_ui :: "mem_disk \<Rightarrow> edit_status \<Rightarrow> mem_disk chat_ui" where
  "plain_ui d st =
     \<lparr>ui_disk = d, ui_pendingEdits = [plain_entry st], ui_item = Some (plain_message, [plain_block])\<rparr>"

subsection \<open>A creation in a nested folder, after the edit mode was left\<close>

definition deep_creation :: WorkspaceState where
  "deep_creation = stopEditing (startCreateFile ''/w/src/lib'' ''17'' example_workspace)"

section \<open>Example data\<close>

text \<open>A workspace root written with backslashes and capitals: \<^verbatim>\<open>C:\Users\Me\Proj\<close>.\<close>

definition backslash_root :: string where
  "backslash_root = ''C:'' @ [CHR 0x5C] @ ''Users'' @ [CHR 0x5C] @ ''Me'' @ [CHR 0x5C] @ ''Proj''"

definition example_disk :: mem_disk where
  "example_disk =
     [(''/w'', MDir), (''/w/b.txt'', MFile ''b''), (''/w/.git'', MDir), (''/w/src'', MDir),
      (''/w/a.txt'', MFile ''a''), (''/w/src/x.ts'', MFile ''x''), (''/w/lib'', MDir)]"

definition outside_disk :: mem_disk where
  "outside_disk = [(''/w'', MDir), (''/etc/passwd'', MFile ''root'')]"

definition outside_input :: tool_input where
  "outside_input = \<lparr>ti_path = ''../etc/passwd'', ti_content = [], ti_edits = []\<rparr>"

definition example_edit :: "edit_status \<Rightarrow> string PendingEdit" where
  "example_edit st =
     \<lparr>pe_id = ''edit-1'', pe_type = ''edit'', pe_path = ''/w/a.txt'',
      pe_originalContent = ''a'', pe_newContent = ''A'', pe_status = st\<rparr>"


section \<open>Theorems\<close>

lemma startsWith_prefix: "startsWith s p = prefix p s"
  unfolding startsWith_def
proof
  assume "take (length p) s = p"
  then have "s = p @ drop (length p) s"
    by (metis append_take_drop_id)
  then show "prefix p s"
    by (metis prefixI)
next
  assume "prefix p s"
  then obtain r where "s = p @ r"
    by (auto simp: prefix_def)
  then show "take (length p) s = p"
    by simp
qed

text \<open>
  The code's replacement of every backslash computes the specification's
  separator-normalized form.
\<close>

lemma split_on_not_Nil: "split_on sep s \<noteq> []"
  by (induction s) (auto split: list.splits)

lemma join_with_Cons_head: "join_with sep ((c # seg) # segs) = c # join_with sep (seg # segs)"
  by (cases segs) simp_all

lemma slashes_separator_normalized: "slashes s = separator_normalized s"
proof (induction s)
  case Nil
  then show ?case by (simp add: slashes_def separator_normalized_def)
next
  case (Cons c cs)
  obtain seg segs where sp: "split_on (CHR 0x5C) cs = seg # segs"
    using split_on_not_Nil [of "CHR 0x5C" cs] by (cases "split_on (CHR 0x5C) cs") auto
  from Cons have ih: "slashes cs = join_with ''/'' (seg # segs)"
    by (simp add: separator_normalized_def sp)
  show ?case
  proof (cases "c = CHR 0x5C")
    case True
    then have "separator_normalized (c # cs) = CHR ''/'' # join_with ''/'' (seg # segs)"
      by (simp add: separator_normalized_def sp)
    with True ih show ?thesis by (simp add: slashes_def)
  next
    case False
    then have "separator_normalized (c # cs) = c # join_with ''/'' (seg # segs)"
      by (simp add: separator_normalized_def sp join_with_Cons_head)
    with False ih show ?thesis by (simp add: slashes_def)
  qed
qed

text \<open>
  Claim C2. The guard answers \<open>False\<close> when no workspace root is set (\<open>null\<close>, or the
  empty string, which JavaScript also treats as unset); with a root \<open>w\<close> set it answers
  \<open>True\<close> exactly when the absolute, separator-normalized, case-folded form of the root
  is a string prefix of that form of the target. That form has no backslash left and is
  as long as the case-folded absolute path.
\<close>

theorem isWithinWorkspace_prefix_iff:
  "\<not> isWithinWorkspace h None p
   \<and> \<not> isWithinWorkspace h (Some []) p
   \<and> (w \<noteq> [] \<longrightarrow>
        isWithinWorkspace h (Some w) p = prefix (normalized_form h w) (normalized_form h p))
   \<and> CHR 0x5C \<notin> set (normalized_form h p)
   \<and> length (normalized_form h p) = length (toLowerCase h (resolve h p))"
proof -
  have n: "\<And>q. normalized_form h q = slashes (toLowerCase h (resolve h q))"
    by (simp add: normalized_form_def slashes_separator_normalized)
  have "CHR 0x5C \<notin> set (slashes (toLowerCase h (resolve h p)))"
    by (auto simp: slashes_def)
  moreover have "length (slashes (toLowerCase h (resolve h p))) = length (toLowerCase h (resolve h p))"
    by (simp add: slashes_def)
  ultimately show ?thesis
    by (simp add: n isWithinWorkspace_def startsWith_prefix Let_def)
qed

theorem isWithinWorkspace_prefix_iff_witness:
  "backslash_root \<noteq> []
   \<and> resolve mem_host backslash_root = CHR ''/'' # backslash_root
   \<and> normalized_form mem_host backslash_root = ''/c:/users/me/proj''
   \<and> normalized_form mem_host ''c:/users/me/proj/src/../a.ts'' = ''/c:/users/me/proj/a.ts''
   \<and> isWithinWorkspace mem_host (Some backslash_root) ''c:/users/me/proj/src/../a.ts''
   \<and> \<not> isWithinWorkspace mem_host (Some backslash_root) ''c:/users/me/other/a.ts''
   \<and> isWithinWorkspace mem_host (Some ''/w'') ''/work/a.ts''"
proof -
  have root: "normalized_form mem_host backslash_root = ''/c:/users/me/proj''"
    by code_simp
  have inside: "normalized_form mem_host ''c:/users/me/proj/src/../a.ts'' = ''/c:/users/me/proj/a.ts''"
    by code_simp
  have outside: "normalized_form mem_host ''c:/users/me/other/a.ts'' = ''/c:/users/me/other/a.ts''"
    by code_simp
  have w: "normalized_form mem_host ''/w'' = ''/w''"
    and work: "normalized_form mem_host ''/work/a.ts'' = ''/work/a.ts''"
    by code_simp+
  have ne: "backslash_root \<noteq> []"
    and res: "resolve mem_host backslash_root = CHR ''/'' # backslash_root"
    by code_simp+
  show ?thesis
    using isWithinWorkspace_prefix_iff [of mem_host "''c:/users/me/proj/src/../a.ts''" "backslash_root"]
          isWithinWorkspace_prefix_iff [of mem_host "''c:/users/me/other/a.ts''" "backslash_root"]
          isWithinWorkspace_prefix_iff [of mem_host "''/work/a.ts''" "''/w''"]
    by (simp add: root inside outside w work ne res)
qed

subsection \<open>Directory listings\<close>

lemma insort_cmp_set: "set (insort_cmp cmp x ys) = insert x (set ys)"
  by (induction ys) auto

lemma js_sort_set: "set (js_sort cmp xs) = set xs"
  unfolding js_sort_def by (induction xs) (auto simp: insort_cmp_set)

lemma insort_cmp_sorted:
  assumes "consistent_comparator cmp" and "sorted_wrt (\<lambda>a b. cmp a b \<le> 0) ys"
  shows "sorted_wrt (\<lambda>a b. cmp a b \<le> 0) (insort_cmp cmp x ys)"
  using assms(2)
proof (induction ys)
  case Nil
  then show ?case by simp
next
  case (Cons y ys)
  have tot: "\<And>a b. cmp a b \<le> 0 \<or> cmp b a \<le> 0"
    and trans: "\<And>a b c. cmp a b \<le> 0 \<Longrightarrow> cmp b c \<le> 0 \<Longrightarrow> cmp a c \<le> 0"
    using assms(1) unfolding consistent_comparator_def by blast+
  show ?case
  proof (cases "cmp x y \<le> 0")
    case True
    then have "\<forall>z\<in>set ys. cmp x z \<le> 0"
      using Cons.prems trans by auto
    with True Cons.prems show ?thesis by simp
  next
    case False
    then have "cmp y x \<le> 0" using tot by blast
    with False Cons show ?thesis
      by (auto simp: insort_cmp_set)
  qed
qed

lemma js_sort_sorted:
  assumes "consistent_comparator cmp"
  shows "sorted_wrt (\<lambda>a b. cmp a b \<le> 0) (js_sort cmp xs)"
  unfolding js_sort_def
  by (induction xs) (auto intro: insort_cmp_sorted [OF assms])

lemma compareNodes_consistent:
  assumes "consistent_comparator lc"
  shows "consistent_comparator (compareNodes lc)"
proof -
  have tot: "\<And>a b. lc a b \<le> 0 \<or> lc b a \<le> 0"
    and trans: "\<And>a b c. lc a b \<le> 0 \<Longrightarrow> lc b c \<le> 0 \<Longrightarrow> lc a c \<le> 0"
    using assms unfolding consistent_comparator_def by blast+
  show ?thesis
    unfolding consistent_comparator_def compareNodes_def
    apply (intro conjI allI impI)
    subgoal for a b using tot [of "node_name a" "node_name b"] by auto
    subgoal for a b c using trans [of "node_name a" "node_name b" "node_name c"]
      by (auto split: if_splits)
    done
qed

lemma insort_folders_first:
  assumes "sorted_wrt (\<lambda>a b. isFolder b \<longrightarrow> isFolder a) ys"
  shows "sorted_wrt (\<lambda>a b. isFolder b \<longrightarrow> isFolder a) (insort_cmp (compareNodes lc) x ys)"
  using assms
proof (induction ys)
  case Nil
  then show ?case by simp
next
  case (Cons y ys)
  show ?case
  proof (cases "compareNodes lc x y \<le> 0")
    case True
    then have "isFolder y \<longrightarrow> isFolder x"
      by (auto simp: compareNodes_def split: if_splits)
    then have "\<forall>z\<in>set (y # ys). isFolder z \<longrightarrow> isFolder x"
      using Cons.prems by auto
    with True Cons.prems show ?thesis by simp
  next
    case False
    then have "isFolder x \<longrightarrow> isFolder y"
      by (auto simp: compareNodes_def split: if_splits)
    with False Cons show ?thesis
      by (auto simp: insort_cmp_set)
  qed
qed

lemma js_sort_folders_first:
  "sorted_wrt (\<lambda>a b. isFolder b \<longrightarrow> isFolder a) (js_sort (compareNodes lc) xs)"
  unfolding js_sort_def
  by (induction xs) (auto intro: insort_folders_first)

lemma compare_nats_total: "compare_nats a b \<le> 0 \<or> compare_nats b a \<le> 0"
proof (induction a b rule: compare_nats.induct)
  case (4 a as b bs)
  consider "a < b" | "b < a" | "a = b" by linarith
  then show ?case
  proof cases
    case 3
    with 4 show ?thesis by simp
  qed simp_all
qed simp_all

lemma compare_nats_trans:
  "compare_nats a b \<le> 0 \<Longrightarrow> compare_nats b c \<le> 0 \<Longrightarrow> compare_nats a c \<le> 0"
proof (induction a b arbitrary: c rule: compare_nats.induct)
  case 1
  then show ?case by (cases c) simp_all
next
  case (2 b bs)
  then show ?case by (cases c) simp_all
next
  case (3 a as)
  then show ?case by simp
next
  case (4 a as b bs)
  show ?case
  proof (cases c)
    case Nil
    with 4(3) show ?thesis by simp
  next
    case (Cons x xs)
    have ab: "a \<le> b" using 4(2) by (simp split: if_splits)
    have bx: "b \<le> x" using 4(3) Cons by (simp split: if_splits)
    show ?thesis
    proof (cases "a < x")
      case True
      with Cons show ?thesis by simp
    next
      case False
      with ab bx have eq: "a = b" "b = x" by simp_all
      with 4(2) have 1: "compare_nats as bs \<le> 0" by simp
      from eq 4(3) Cons have 2: "compare_nats bs xs \<le> 0" by simp
      from 4(1) [of xs] eq 1 2 have "compare_nats as xs \<le> 0" by simp
      with eq Cons show ?thesis by simp
    qed
  qed
qed

lemma compare_codes_consistent: "consistent_comparator compare_codes"
  unfolding consistent_comparator_def compare_codes_def
proof (intro conjI allI impI)
  fix a b :: string
  show "compare_nats (map of_char a) (map of_char b) \<le> 0 \<or> compare_nats (map of_char b) (map of_char a) \<le> 0"
    by (rule compare_nats_total)
next
  fix a b c :: string
  assume "compare_nats (map of_char a) (map of_char b) \<le> 0 \<and> compare_nats (map of_char b) (map of_char c) \<le> 0"
  then show "compare_nats (map of_char a) (map of_char c) \<le> 0"
    using compare_nats_trans by blast
qed

text \<open>
  Claim C10. No node of a listing has a name that starts with a dot; folders come before
  files; nodes are ordered by the comparator of the source (folders first, then
  \<open>localeCompare\<close> on the names) whenever \<open>localeCompare\<close> is a total preorder; and a
  directory that cannot be read gives the empty listing.
\<close>

theorem readDirSafe_listing:
  "(\<forall>n \<in> set (readDirSafe h dirPath d). \<not> startsWith (node_name n) ''.'')
   \<and> sorted_wrt (\<lambda>a b. isFolder b \<longrightarrow> isFolder a) (readDirSafe h dirPath d)
   \<and> (consistent_comparator (localeCompare h) \<longrightarrow>
        sorted_wrt (\<lambda>a b. compareNodes (localeCompare h) a b \<le> 0) (readDirSafe h dirPath d))
   \<and> ((\<exists>e. readdir h dirPath d = Inl e) \<longrightarrow> readDirSafe h dirPath d = [])"
proof (cases "readdir h dirPath d")
  case (Inl e)
  then show ?thesis by (simp add: readDirSafe_def)
next
  case (Inr entries)
  then show ?thesis
    by (auto simp: readDirSafe_def js_sort_set js_sort_folders_first
             intro: js_sort_sorted compareNodes_consistent)
qed

theorem readDirSafe_listing_witness:
  "readDirSafe mem_host ''/w'' example_disk =
       [FileNode ''/w/lib'' ''lib'' ''/w/lib'' True None False False,
        FileNode ''/w/src'' ''src'' ''/w/src'' True None False False,
        FileNode ''/w/a.txt'' ''a.txt'' ''/w/a.txt'' False None False False,
        FileNode ''/w/b.txt'' ''b.txt'' ''/w/b.txt'' False None False False]
   \<and> sorted_wrt (\<lambda>a b. compareNodes (localeCompare mem_host) a b \<le> 0)
        (readDirSafe mem_host ''/w'' example_disk)
   \<and> readdir mem_host ''/nowhere'' example_disk = Inl (SystemError ''ENOENT'')
   \<and> readDirSafe mem_host ''/nowhere'' example_disk = []"
proof -
  have c: "consistent_comparator (localeCompare mem_host)"
    by (simp add: mem_host_def compare_codes_consistent)
  have l: "readDirSafe mem_host ''/w'' example_disk =
       [FileNode ''/w/lib'' ''lib'' ''/w/lib'' True None False False,
        FileNode ''/w/src'' ''src'' ''/w/src'' True None False False,
        FileNode ''/w/a.txt'' ''a.txt'' ''/w/a.txt'' False None False False,
        FileNode ''/w/b.txt'' ''b.txt'' ''/w/b.txt'' False None False False]"
    by code_simp
  have e: "readdir mem_host ''/nowhere'' example_disk = Inl (SystemError ''ENOENT'')"
    by code_simp
  from readDirSafe_listing [of mem_host "''/w''" example_disk] c
  have s: "sorted_wrt (\<lambda>a b. compareNodes (localeCompare mem_host) a b \<le> 0)
             (readDirSafe mem_host ''/w'' example_disk)"
    by blast
  from readDirSafe_listing [of mem_host "''/nowhere''" example_disk] e
  have n: "readDirSafe mem_host ''/nowhere'' example_disk = []"
    by blast
  show ?thesis
    using l s e n by blast
qed

subsection \<open>Path Guard coverage, the ledger and the read handler\<close>

lemma updateEditStatus_same:
  "\<forall>e \<in> set ledger. pe_id e = i \<longrightarrow> pe_status e = st \<Longrightarrow> updateEditStatus i st ledger = ledger"
  unfolding updateEditStatus_def by (induction ledger) auto

text \<open>
  Claim C4. When the commit fails (the directory cannot be made or the file cannot be
  written), ai:applyEdit answers \<open>false\<close> and \<open>handleAcceptEdit\<close> leaves the ledger as it
  was: the entry keeps its status and can be accepted again.
\<close>

theorem failed_commit_leaves_ledger:
  assumes "mkdir h (dirname h path) d = Inl e
           \<or> (\<exists>d1. mkdir h (dirname h path) d = Inr d1 \<and> writeFile h path newC d1 = Inl e)"
  shows "fst (ai_applyEdit h path newC d) = False
         \<and> snd (handleAcceptEdit h editId path newC (d, ledger)) = ledger"
  using assms
  by (auto simp: handleAcceptEdit_def ai_applyEdit_def split: sum.splits prod.splits)

theorem failed_commit_leaves_ledger_witness:
  "(\<exists>d1. mkdir mem_host (dirname mem_host ''/w/src'') example_disk = Inr d1
          \<and> writeFile mem_host ''/w/src'' ''A'' d1 = Inl (SystemError ''EISDIR''))
   \<and> snd (handleAcceptEdit mem_host ''edit-1'' ''/w/src'' ''A'' (example_disk, [example_edit Pending]))
       = [example_edit Pending]"
proof -
  have 1: "mkdir mem_host (dirname mem_host ''/w/src'') example_disk = Inr example_disk"
    by code_simp
  have 2: "writeFile mem_host ''/w/src'' ''A'' example_disk = Inl (SystemError ''EISDIR'')"
    by code_simp
  have h: "mkdir mem_host (dirname mem_host ''/w/src'') example_disk = Inl (SystemError ''EISDIR'')
           \<or> (\<exists>d1. mkdir mem_host (dirname mem_host ''/w/src'') example_disk = Inr d1
                    \<and> writeFile mem_host ''/w/src'' ''A'' d1 = Inl (SystemError ''EISDIR''))"
    using 1 2 by simp
  show ?thesis
    using failed_commit_leaves_ledger [OF h, of "''edit-1''" "[example_edit Pending]"] 1 2 by simp
qed

text \<open>
  Claim C1, evaluated. With the workspace root \<open>/w\<close>, the path \<open>/etc/cron.d/job\<close> is
  outside the root and fs:writeFile refuses it, but ai:applyEdit, which never calls the
  guard, writes the file and answers \<open>true\<close>. Likewise the read_file tool, given
  \<open>../etc/passwd\<close>, returns the content of a file outside the root.
\<close>

theorem ai_applyEdit_writes_outside_workspace:
  "\<not> isWithinWorkspace mem_host (Some ''/w'') ''/etc/cron.d/job''
   \<and> fs_writeFile mem_host (Some ''/w'') ''/etc/cron.d/job'' ''run'' example_disk
       = (Inl access_denied, example_disk)
   \<and> fst (ai_applyEdit mem_host ''/etc/cron.d/job'' ''run'' example_disk) = True
   \<and> map_of (snd (ai_applyEdit mem_host ''/etc/cron.d/job'' ''run'' example_disk)) ''/etc/cron.d/job''
       = Some (MFile ''run'')
   \<and> \<not> isWithinWorkspace mem_host (Some ''/w'') (join mem_host ''/w'' ''../etc/passwd'')
   \<and> executeAITool mem_host (Some ''/w'') ''17'' ''read_file'' outside_input outside_disk
       = ''File: ../etc/passwd'' @ nl @ nl @ ''   1 | root''"
  by code_simp

text \<open>
  Claim C3, evaluated. The message with the proposal for app.js is rendered while the
  ledger is empty, so its block shows both buttons, and the effect registers the entry
  as pending. Accept writes the file and marks the entry applied. The ledger is not a
  prop of the memoised \<open>MessageItem\<close>, so the block is not rendered again and still
  shows both buttons: Reject then marks the applied entry rejected, although the file
  stays written. Likewise Accept on an entry that was rejected writes the file and marks
  it applied. A block rendered from the ledger after the first click would have no
  button, which is the check that the code intends.
\<close>

theorem shown_buttons_change_a_terminal_entry:
  "render_MessageList compare_codes plain_parse plain_message
       \<lparr>ui_disk = plain_disk, ui_pendingEdits = [], ui_item = None\<rparr>
     = Inr (plain_ui plain_disk Pending)
   \<and> DiffBlock_controls (rb_isApplied plain_block) (rb_isRejected plain_block) = [Accept, Reject]
   \<and> click mem_host compare_codes plain_parse Accept 0 (plain_ui plain_disk Pending)
     = Inr (plain_ui plain_patched Applied)
   \<and> click mem_host compare_codes plain_parse Reject 0 (plain_ui plain_patched Applied)
     = Inr (plain_ui plain_patched Rejected)
   \<and> click mem_host compare_codes plain_parse Reject 0 (plain_ui plain_disk Pending)
     = Inr (plain_ui plain_disk Rejected)
   \<and> click mem_host compare_codes plain_parse Accept 0 (plain_ui plain_disk Rejected)
     = Inr (plain_ui plain_patched Applied)
   \<and> render_MessageItem compare_codes plain_parse [plain_entry Applied] plain_message
     = Inr ([plain_proposal], [plain_block\<lparr>rb_isApplied := True\<rparr>])
   \<and> DiffBlock_controls True False = []
   \<and> DiffBlock_controls False True = []"
proof -
  have 1: "render_MessageList compare_codes plain_parse plain_message
       \<lparr>ui_disk = plain_disk, ui_pendingEdits = [], ui_item = None\<rparr>
     = Inr (plain_ui plain_disk Pending)"
    by code_simp
  have 2: "DiffBlock_controls (rb_isApplied plain_block) (rb_isRejected plain_block) = [Accept, Reject]"
    by code_simp
  have 3: "click mem_host compare_codes plain_parse Accept 0 (plain_ui plain_disk Pending)
     = Inr (plain_ui plain_patched Applied)"
    by code_simp
  have 4: "click mem_host compare_codes plain_parse Reject 0 (plain_ui plain_patched Applied)
     = Inr (plain_ui plain_patched Rejected)"
    by code_simp
  have 5: "click mem_host compare_codes plain_parse Reject 0 (plain_ui plain_disk Pending)
     = Inr (plain_ui plain_disk Rejected)"
    by code_simp
  have 6: "click mem_host compare_codes plain_parse Accept 0 (plain_ui plain_disk Rejected)
     = Inr (plain_ui plain_patched Applied)"
    by code_simp
  have 7: "render_MessageItem compare_codes plain_parse [plain_entry Applied] plain_message
     = Inr ([plain_proposal], [plain_block\<lparr>rb_isApplied := True\<rparr>])"
    by code_simp
  have 8: "DiffBlock_controls True False = []" "DiffBlock_controls False True = []"
    by (simp_all add: DiffBlock_controls_def)
  from 1 2 3 4 5 6 7 8 show ?thesis by blast
qed




subsection \<open>Tree store: notifications during a creation\<close>

lemma handleFsChange_suppressed:
  "truthy_string (editingNodeId s) \<or> hasTempNodes (tree s) \<Longrightarrow> handleFsChange event changedPath s = s"
  by (simp add: handleFsChange_def)

text \<open>
  Claim C8, evaluated. A file is being created in the nested folder \<open>/w/src/lib\<close> and
  the edit mode has been left (\<open>stopEditing\<close>; \<open>renameItem\<close> resets \<open>editingNodeId\<close> the
  same way). The new node sits two levels below the top, where \<open>handleFsChange\<close> does
  not look: the notification is not suppressed and a refresh is scheduled.
\<close>

theorem handleFsChange_misses_deep_new_node:
  "tree deep_creation =
     [FileNode ''/w/src'' ''src'' ''/w/src'' True
        (Some [FileNode ''/w/src/lib'' ''lib'' ''/w/src/lib'' True
                 (Some [FileNode ''__temp_file_17'' ''untitled.txt'' ''__temp_file_17''
                          False None True False])
                 False False])
        False False]
   \<and> new_node_anywhere (tree deep_creation)
   \<and> isCreating deep_creation
   \<and> editingNodeId deep_creation = None
   \<and> refreshTimeout deep_creation = None
   \<and> refreshTimeout (handleFsChange ''change'' ''/w/src/lib/a.ts'' deep_creation)
       = Some ''/w/src/lib/a.ts''"
  by (simp add: deep_creation_def stopEditing_def startCreateFile_def example_workspace_def
        addNodeToTree_def handleFsChange_def hasTempNodes_def truthy_string_def
        new_node_anywhere_def Let_def)

subsection \<open>Marker Codec: decoding a longer text\<close>

lemma strip_prefix_append_None:
  "strip_prefix pat s = None \<Longrightarrow> length pat \<le> length s \<Longrightarrow> strip_prefix pat (s @ t) = None"
  by (induction pat s rule: strip_prefix.induct) (simp_all split: if_splits)

lemma strip_prefix_append_Some:
  "strip_prefix pat s = Some r \<Longrightarrow> strip_prefix pat (s @ t) = Some (r @ t)"
  by (induction pat s rule: strip_prefix.induct) (simp_all split: if_splits)

lemma split_first_append:
  "split_first pat s = Some (b, a) \<Longrightarrow> split_first pat (s @ t) = Some (b, a @ t)"
proof (induction s arbitrary: b a)
  case Nil
  then have "pat = []" "b = []" "a = []" by (simp_all split: if_splits)
  then show ?case by (cases t) simp_all
next
  case (Cons c cs)
  show ?case
  proof (cases "strip_prefix pat (c # cs)")
    case (Some r)
    then have "strip_prefix pat (c # cs @ t) = Some (r @ t)"
      using strip_prefix_append_Some [of pat "c # cs" r t] by simp
    with Some Cons.prems show ?thesis by simp
  next
    case None
    with Cons.prems obtain b' where rest: "split_first pat cs = Some (b', a)" and b: "b = c # b'"
      by (auto split: option.splits)
    have "length pat \<le> length (c # cs)"
      using split_first_length [OF rest] by simp
    then have "strip_prefix pat (c # cs @ t) = None"
      using strip_prefix_append_None [OF None, of t] by simp
    with Cons.IH [OF rest] b show ?thesis by simp
  qed
qed

lemma exec_all_unfold_none1:
  "split_first (open_tag m) s = None \<Longrightarrow> exec_all m s = []"
  by (subst exec_all.simps) simp

lemma exec_all_unfold_none2:
  "split_first (open_tag m) s = Some (b, r) \<Longrightarrow> split_first (close_tag m) r = None \<Longrightarrow> exec_all m s = []"
  by (subst exec_all.simps) simp

lemma exec_all_unfold_some:
  "split_first (open_tag m) s = Some (b, r) \<Longrightarrow> split_first (close_tag m) r = Some (y, r')
     \<Longrightarrow> exec_all m s = y # exec_all m r'"
  by (subst exec_all.simps) simp

lemma exec_all_append: "prefix (exec_all m s) (exec_all m (s @ t))"
proof (induction m s rule: exec_all.induct)
  case (1 m s)
  show ?case
  proof (cases "split_first (open_tag m) s")
    case None
    then show ?thesis by (simp add: exec_all_unfold_none1)
  next
    case (Some br)
    then obtain b r where o1: "split_first (open_tag m) s = Some (b, r)" by (cases br) simp
    then have o2: "split_first (open_tag m) (s @ t) = Some (b, r @ t)"
      by (rule split_first_append)
    show ?thesis
    proof (cases "split_first (close_tag m) r")
      case None
      with o1 show ?thesis by (simp add: exec_all_unfold_none2)
    next
      case (Some yr)
      then obtain y r' where c1: "split_first (close_tag m) r = Some (y, r')" by (cases yr) simp
      then have c2: "split_first (close_tag m) (r @ t) = Some (y, r' @ t)"
        by (rule split_first_append)
      have ih: "prefix (exec_all m r') (exec_all m (r' @ t))"
        by (rule "1.IH" [OF o1 refl c1 refl])
      show ?thesis
        using ih exec_all_unfold_some [OF o1 c1] exec_all_unfold_some [OF o2 c2] by simp
    qed
  qed
qed

lemma map_filter_prefix: "prefix xs ys \<Longrightarrow> prefix (List.map_filter f xs) (List.map_filter f ys)"
  by (auto simp: prefix_def List.map_filter_def)

lemma edits_fold:
  "snd (foldl (edit_step P) acc bodies) = snd acc @ List.map_filter P bodies"
proof (induction bodies arbitrary: acc)
  case Nil
  then show ?case by (simp add: List.map_filter_simps)
next
  case (Cons b bs)
  then show ?case
    by (cases "P b") (simp_all add: edit_step_def List.map_filter_simps)
qed

lemma status_fold:
  "snd (foldl (status_step P) acc bodies)
     = map_set_all (snd acc) (List.map_filter (status_entry P) bodies)"
proof (induction bodies arbitrary: acc)
  case Nil
  then show ?case by (simp add: List.map_filter_simps map_set_all_def)
next
  case (Cons b bs)
  show ?case
  proof (cases "status_entry P b")
    case None
    then have "status_step P acc b = acc"
      by (auto simp: status_entry_def status_step_def split: option.splits sum.splits)
    with None Cons show ?thesis by (simp add: List.map_filter_simps)
  next
    case (Some kv)
    obtain k v where kv: "kv = (k, v)" by (cases kv)
    with Some have "snd (status_step P acc b) = map_set (snd acc) k v"
      by (auto simp: status_entry_def status_step_def split: option.splits sum.splits)
    with Some kv Cons show ?thesis by (simp add: List.map_filter_simps map_set_all_def)
  qed
qed

lemma map_set_keys: "fst ` set (map_set m k v) = insert k (fst ` set m)"
proof (induction m)
  case Nil
  then show ?case by simp
next
  case (Cons e m)
  obtain k' v' where e: "e = (k', v')" by (cases e)
  show ?case
  proof (cases "same_value k' k")
    case True
    then have "k' = k" by (simp add: same_value_def)
    with True e show ?thesis by auto
  next
    case False
    with e have "map_set (e # m) k v = (k', v') # map_set m k v" by simp
    with Cons.IH e show ?thesis by auto
  qed
qed

lemma map_set_length: "length m \<le> length (map_set m k v)"
  by (induction m) auto

lemma map_set_all_snoc: "map_set_all m (es @ [(k, v)]) = map_set (map_set_all m es) k v"
  by (simp add: map_set_all_def)

lemma map_set_all_append: "map_set_all m (es @ fs) = map_set_all (map_set_all m es) fs"
  by (simp add: map_set_all_def)

lemma map_set_all_keys: "fst ` set (map_set_all m es) = fst ` set m \<union> fst ` set es"
proof (induction es rule: rev_induct)
  case Nil
  then show ?case by (simp add: map_set_all_def)
next
  case (snoc e es)
  obtain k v where "e = (k, v)" by (cases e)
  with snoc show ?case by (auto simp: map_set_all_snoc map_set_keys)
qed

lemma map_set_all_length: "length m \<le> length (map_set_all m es)"
proof (induction es rule: rev_induct)
  case Nil
  then show ?case by (simp add: map_set_all_def)
next
  case (snoc e es)
  obtain k v where "e = (k, v)" by (cases e)
  with snoc show ?case
    using map_set_length [of "map_set_all m es" k v] by (simp add: map_set_all_snoc)
qed

lemma map_set_distinct_keys: "distinct_keys m \<Longrightarrow> distinct_keys (map_set m k v)"
proof (induction m)
  case Nil
  then show ?case by simp
next
  case (Cons e m)
  obtain k' v' where e: "e = (k', v')" by (cases e)
  show ?case
  proof (cases "same_value k' k")
    case True
    with Cons.prems e show ?thesis by simp
  next
    case False
    have "\<forall>x \<in> set (map_set m k v). \<not> same_value k' (fst x)"
    proof
      fix x assume "x \<in> set (map_set m k v)"
      then have "fst x \<in> insert k (fst ` set m)"
        using map_set_keys [of m k v] by (metis imageI)
      with False Cons.prems e show "\<not> same_value k' (fst x)" by auto
    qed
    with False Cons e show ?thesis by simp
  qed
qed

lemma map_set_all_distinct_keys: "distinct_keys m \<Longrightarrow> distinct_keys (map_set_all m es)"
proof (induction es rule: rev_induct)
  case Nil
  then show ?case by (simp add: map_set_all_def)
next
  case (snoc e es)
  obtain k v where "e = (k, v)" by (cases e)
  with snoc show ?case by (simp add: map_set_all_snoc map_set_distinct_keys)
qed

lemma distinct_keys_distinct:
  "distinct_keys m \<Longrightarrow> \<forall>e \<in> set m. \<not> is_object (fst e) \<Longrightarrow> distinct (map fst m)"
proof (induction m)
  case Nil
  then show ?case by simp
next
  case (Cons e m)
  obtain k v where e: "e = (k, v)" by (cases e)
  with Cons.prems have "\<forall>x \<in> set m. k \<noteq> fst x"
    by (auto simp: same_value_def)
  with Cons e show ?case by auto
qed

lemma map_set_other: "(k, v) \<in> set (map_set m k' v') \<Longrightarrow> k \<noteq> k' \<Longrightarrow> (k, v) \<in> set m"
  by (induction m) (auto simp: same_value_def split: if_splits)

lemma map_set_same:
  "distinct_keys m \<Longrightarrow> (k, v) \<in> set (map_set m k v') \<Longrightarrow> \<not> is_object k \<Longrightarrow> v = v'"
proof (induction m)
  case Nil
  then show ?case by simp
next
  case (Cons e m)
  obtain k1 v1 where e: "e = (k1, v1)" by (cases e)
  show ?case
  proof (cases "same_value k1 k")
    case True
    then have k1: "k1 = k" by (simp add: same_value_def)
    have "(k, v) \<notin> set m"
      using Cons.prems(1) e True k1 by auto
    with Cons.prems(2) e True k1 show ?thesis by simp
  next
    case False
    with Cons.prems(3) have "k1 \<noteq> k" by (auto simp: same_value_def)
    with Cons e False show ?thesis by auto
  qed
qed

lemma map_set_all_latest:
  assumes "(k, v) \<in> set (map_set_all [] es)" and "\<not> is_object k"
  shows "(k, v) = last (filter (\<lambda>e. fst e = k) es)"
  using assms(1)
proof (induction es arbitrary: v rule: rev_induct)
  case Nil
  then show ?case by (simp add: map_set_all_def)
next
  case (snoc e es)
  obtain k' v' where e: "e = (k', v')" by (cases e)
  have dk: "distinct_keys (map_set_all [] es)"
    by (rule map_set_all_distinct_keys) simp
  from snoc.prems e have mem: "(k, v) \<in> set (map_set (map_set_all [] es) k' v')"
    by (simp add: map_set_all_snoc)
  show ?case
  proof (cases "k = k'")
    case True
    with mem have "v = v'"
      using map_set_same [OF dk _ assms(2)] by blast
    with True e show ?thesis by simp
  next
    case False
    with mem have "(k, v) \<in> set (map_set_all [] es)"
      by (rule map_set_other)
    with snoc.IH False e show ?thesis by simp
  qed
qed

lemma insert_later_Inr:
  "insert_later cmp x ys = Inr r \<Longrightarrow>
     set r = insert x (set ys)
     \<and> (distinct (map f r) \<longleftrightarrow> f x \<notin> f ` set ys \<and> distinct (map f ys))"
proof (induction ys arbitrary: r)
  case Nil
  then show ?case by auto
next
  case (Cons y ys)
  from Cons.prems obtain c where c: "cmp x y = Inr c"
    by (cases "cmp x y") simp_all
  show ?case
  proof (cases "c < 0")
    case True
    with Cons.prems c obtain r' where r': "insert_later cmp x ys = Inr r'" and r: "r = y # r'"
      by (cases "insert_later cmp x ys") simp_all
    from Cons.IH [OF r'] r show ?thesis by auto
  next
    case False
    with Cons.prems c have "r = x # y # ys" by simp
    then show ?thesis by auto
  qed
qed

lemma sort_from_Inr:
  "sort_from cmp acc xs = Inr r \<Longrightarrow>
     set r = set acc \<union> set xs \<and> (distinct (map f r) \<longleftrightarrow> distinct (map f (acc @ xs)))"
proof (induction xs arbitrary: acc r)
  case Nil
  then have "r = rev acc" by simp
  then show ?case by (simp add: rev_map [symmetric])
next
  case (Cons x xs)
  from Cons.prems obtain acc' where i: "insert_later cmp x acc = Inr acc'"
    and s: "sort_from cmp acc' xs = Inr r"
    by (cases "insert_later cmp x acc") simp_all
  have 1: "set acc' = insert x (set acc)"
    and 2: "distinct (map f acc') \<longleftrightarrow> f x \<notin> f ` set acc \<and> distinct (map f acc)"
    using insert_later_Inr [OF i, of f] by simp_all
  have 3: "set r = set acc' \<union> set xs"
    and 4: "distinct (map f r) \<longleftrightarrow> distinct (map f (acc' @ xs))"
    using Cons.IH [OF s] by simp_all
  have "distinct (map f (acc' @ xs)) \<longleftrightarrow> distinct (map f (acc @ x # xs))"
    using 1 2 by auto
  with 1 3 4 show ?case by auto
qed

lemma compare_by_id_Inr:
  "(\<exists>c. compare_by_id lc a b = Inr c) \<longleftrightarrow> is_Str (payload_id a) \<and> \<not> isl (to_string (payload_id b))"
  by (cases "prop_of a ''id''"; cases "to_string (prop_of b ''id'')")
     (simp_all add: compare_by_id_def payload_id_def)

lemma is_Str_to_string: "is_Str k \<Longrightarrow> \<not> isl (to_string k)"
  by (cases k) simp_all

lemma insert_later_needs:
  assumes "insert_later (compare_by_id lc) x (y # ys) = Inr r"
  shows "is_Str (payload_id x) \<and> \<not> isl (to_string (payload_id y))"
proof -
  from assms obtain c where "compare_by_id lc x y = Inr c"
    by (cases "compare_by_id lc x y") simp_all
  then show ?thesis
    using compare_by_id_Inr [of lc x y] by blast
qed

lemma insert_later_returns:
  "is_Str (payload_id x) \<Longrightarrow> \<forall>y \<in> set ys. \<not> isl (to_string (payload_id y))
     \<Longrightarrow> \<exists>r. insert_later (compare_by_id lc) x ys = Inr r"
proof (induction ys)
  case Nil
  then show ?case by simp
next
  case (Cons y ys)
  then obtain c where c: "compare_by_id lc x y = Inr c"
    using compare_by_id_Inr [of lc x y] by auto
  from Cons obtain r where "insert_later (compare_by_id lc) x ys = Inr r"
    by auto
  with c show ?case by simp
qed

lemma sort_from_needs:
  "sort_from (compare_by_id lc) acc xs = Inr r \<Longrightarrow> acc \<noteq> [] \<Longrightarrow> \<forall>x \<in> set xs. is_Str (payload_id x)"
proof (induction xs arbitrary: acc)
  case Nil
  then show ?case by simp
next
  case (Cons x xs)
  from Cons.prems obtain acc' where i: "insert_later (compare_by_id lc) x acc = Inr acc'"
    and s: "sort_from (compare_by_id lc) acc' xs = Inr r"
    by (cases "insert_later (compare_by_id lc) x acc") simp_all
  from Cons.prems(2) obtain y ys where "acc = y # ys" by (cases acc) auto
  with i have x: "is_Str (payload_id x)"
    using insert_later_needs by blast
  have "set acc' = insert x (set acc)"
    using insert_later_Inr [OF i, of id] by simp
  then have "acc' \<noteq> []" by auto
  with Cons.IH [OF s] x show ?case by simp
qed

lemma sort_from_returns:
  "\<forall>y \<in> set acc. \<not> isl (to_string (payload_id y)) \<Longrightarrow> \<forall>x \<in> set xs. is_Str (payload_id x)
     \<Longrightarrow> \<exists>r. sort_from (compare_by_id lc) acc xs = Inr r"
proof (induction xs arbitrary: acc)
  case Nil
  then show ?case by simp
next
  case (Cons x xs)
  then obtain acc' where i: "insert_later (compare_by_id lc) x acc = Inr acc'"
    using insert_later_returns [of x acc lc] by auto
  have "set acc' = insert x (set acc)"
    using insert_later_Inr [OF i, of id] by simp
  with Cons.prems have "\<forall>y \<in> set acc'. \<not> isl (to_string (payload_id y))"
    by (auto simp: is_Str_to_string)
  with Cons.IH [of acc'] Cons.prems(2) obtain r where "sort_from (compare_by_id lc) acc' xs = Inr r"
    by auto
  with i show ?case by simp
qed

lemma sort_statuses_Inr:
  assumes "sort_statuses lc vals = Inr r"
  shows "set r = set vals" and "distinct (map f r) \<longleftrightarrow> distinct (map f vals)"
    and "sortable_ids (map payload_id vals)"
proof -
  from assms have s: "sort_from (compare_by_id lc) [] vals = Inr r"
    by (simp add: sort_statuses_def)
  from sort_from_Inr [OF s, of f] show "set r = set vals"
    and "distinct (map f r) \<longleftrightarrow> distinct (map f vals)" by simp_all
  show "sortable_ids (map payload_id vals)"
  proof (cases vals)
    case Nil
    then show ?thesis by simp
  next
    case (Cons v0 rest)
    show ?thesis
    proof (cases rest)
      case Nil
      with Cons show ?thesis by simp
    next
      case (Cons v1 rest')
      with s \<open>vals = v0 # rest\<close>
      have s1: "sort_from (compare_by_id lc) [v0] (v1 # rest') = Inr r" by simp
      then obtain acc' where i: "insert_later (compare_by_id lc) v1 [v0] = Inr acc'"
        by (cases "insert_later (compare_by_id lc) v1 [v0]") simp_all
      have "\<not> isl (to_string (payload_id v0))"
        using insert_later_needs [OF i] by simp
      moreover have "\<forall>x \<in> set (v1 # rest'). is_Str (payload_id x)"
        using sort_from_needs [OF s1] by simp
      ultimately show ?thesis
        using Cons \<open>vals = v0 # rest\<close> by (simp add: list_all_iff)
    qed
  qed
qed

lemma sort_statuses_returns:
  assumes "sortable_ids (map payload_id vals)"
  shows "\<exists>r. sort_statuses lc vals = Inr r"
proof (cases vals)
  case Nil
  then show ?thesis by (simp add: sort_statuses_def)
next
  case (Cons v0 rest)
  show ?thesis
  proof (cases rest)
    case Nil
    with Cons show ?thesis by (simp add: sort_statuses_def)
  next
    case (Cons v1 rest')
    with assms \<open>vals = v0 # rest\<close>
    have "\<not> isl (to_string (payload_id v0))" and "\<forall>x \<in> set rest. is_Str (payload_id x)"
      by (simp_all add: list_all_iff)
    then have "\<exists>r. sort_from (compare_by_id lc) [v0] rest = Inr r"
      using sort_from_returns [of "[v0]" rest lc] by simp
    with \<open>vals = v0 # rest\<close> show ?thesis by (simp add: sort_statuses_def)
  qed
qed

lemma sortable_ids_prefix: "prefix ks ks' \<Longrightarrow> sortable_ids ks' \<Longrightarrow> sortable_ids ks"
proof (cases ks)
  case Nil
  then show ?thesis by simp
next
  case (Cons k rest)
  assume p: "prefix ks ks'" and s: "sortable_ids ks'"
  show ?thesis
  proof (cases rest)
    case Nil
    with Cons show ?thesis by simp
  next
    case (Cons k' rest')
    with p \<open>ks = k # rest\<close> obtain more where "ks' = k # k' # rest' @ more"
      by (auto simp: prefix_def)
    with s Cons \<open>ks = k # rest\<close> show ?thesis by simp
  qed
qed

lemma map_set_key_order: "\<exists>more. map fst (map_set m k v) = map fst m @ more"
  by (induction m) auto

lemma map_set_all_key_order: "prefix (map fst m) (map fst (map_set_all m es))"
proof (induction es rule: rev_induct)
  case Nil
  then show ?case by (simp add: map_set_all_def)
next
  case (snoc e es)
  obtain k v where e: "e = (k, v)" by (cases e)
  obtain more where "map fst (map_set (map_set_all m es) k v) = map fst (map_set_all m es) @ more"
    using map_set_key_order by blast
  with snoc e show ?case
    by (metis map_set_all_snoc prefix_order.trans prefixI)
qed

lemma decode_Inr:
  assumes "parseMessageContent lc P text = Inr r"
  shows "edits r = List.map_filter P (exec_all DIFF_BLOCK text)"
    and "sort_statuses lc (map snd (map_set_all [] (status_entries P text))) = Inr (toolStatuses r)"
proof -
  obtain c1 es where e: "foldl (edit_step P) (text, []) (exec_all DIFF_BLOCK text) = (c1, es)"
    by (cases "foldl (edit_step P) (text, []) (exec_all DIFF_BLOCK text)")
  obtain c2 m where s: "foldl (status_step P) (c1, []) (exec_all TOOL_STATUS text) = (c2, m)"
    by (cases "foldl (status_step P) (c1, []) (exec_all TOOL_STATUS text)")
  have es: "es = List.map_filter P (exec_all DIFF_BLOCK text)"
    using edits_fold [of P "(text, [])" "exec_all DIFF_BLOCK text"] e by simp
  have m: "m = map_set_all [] (status_entries P text)"
    using status_fold [of P "(c1, [])" "exec_all TOOL_STATUS text"] s
    by (simp add: status_entries_def)
  from assms e s have "sort_statuses lc (map snd m) = Inr (toolStatuses r) \<and> edits r = es"
    by (auto simp: parseMessageContent_def split: sum.splits)
  with es m show "edits r = List.map_filter P (exec_all DIFF_BLOCK text)"
    and "sort_statuses lc (map snd (map_set_all [] (status_entries P text))) = Inr (toolStatuses r)"
    by simp_all
qed

lemma decode_returns:
  assumes "sort_statuses lc (map snd (map_set_all [] (status_entries P text))) = Inr vals"
  shows "\<exists>r. parseMessageContent lc P text = Inr r"
proof -
  obtain c1 es where e: "foldl (edit_step P) (text, []) (exec_all DIFF_BLOCK text) = (c1, es)"
    by (cases "foldl (edit_step P) (text, []) (exec_all DIFF_BLOCK text)")
  obtain c2 m where s: "foldl (status_step P) (c1, []) (exec_all TOOL_STATUS text) = (c2, m)"
    by (cases "foldl (status_step P) (c1, []) (exec_all TOOL_STATUS text)")
  have m: "m = map_set_all [] (status_entries P text)"
    using status_fold [of P "(c1, [])" "exec_all TOOL_STATUS text"] s
    by (simp add: status_entries_def)
  with assms e s show ?thesis
    by (simp add: parseMessageContent_def)
qed

text \<open>Every entry of the map is keyed by the id of its payload.\<close>

lemma status_entry_id: "status_entry P b = Some (k, v) \<Longrightarrow> payload_id v = k"
  by (auto simp: status_entry_def payload_id_def prop_of_def split: option.splits sum.splits)

lemma status_entries_id: "(k, v) \<in> set (status_entries P text) \<Longrightarrow> payload_id v = k"
  by (auto simp: status_entries_def List.map_filter_def status_entry_id split: option.splits)

lemma map_set_ids:
  "\<forall>e \<in> set m. payload_id (snd e) = fst e \<Longrightarrow> payload_id v = k
     \<Longrightarrow> \<forall>e \<in> set (map_set m k v). payload_id (snd e) = fst e"
proof (induction m)
  case Nil
  then show ?case by simp
next
  case (Cons e m)
  obtain k' v' where e: "e = (k', v')" by (cases e)
  show ?case
  proof (cases "same_value k' k")
    case True
    then have "k' = k" by (simp add: same_value_def)
    with True e Cons.prems show ?thesis by simp
  next
    case False
    with e have "map_set (e # m) k v = (k', v') # map_set m k v" by simp
    with Cons e show ?thesis by simp
  qed
qed

lemma map_set_all_ids:
  "\<forall>e \<in> set m. payload_id (snd e) = fst e \<Longrightarrow> \<forall>e \<in> set es. payload_id (snd e) = fst e
     \<Longrightarrow> \<forall>e \<in> set (map_set_all m es). payload_id (snd e) = fst e"
proof (induction es rule: rev_induct)
  case Nil
  then show ?case by (simp add: map_set_all_def)
next
  case (snoc e es)
  obtain k v where e: "e = (k, v)" by (cases e)
  with snoc.prems have "payload_id v = k" by simp
  moreover have "\<forall>e \<in> set (map_set_all m es). payload_id (snd e) = fst e"
    using snoc by simp
  ultimately show ?case
    using e map_set_ids by (simp add: map_set_all_snoc)
qed

lemma status_map_ids:
  "map payload_id (map snd (map_set_all [] (status_entries P text)))
     = map fst (map_set_all [] (status_entries P text))"
proof -
  have "\<forall>e \<in> set (map_set_all [] (status_entries P text)). payload_id (snd e) = fst e"
    by (rule map_set_all_ids) (auto simp: status_entries_id)
  then show ?thesis by simp
qed

lemma getPendingEdit_None:
  "getPendingEdit ledger i = None \<longleftrightarrow> (\<forall>e \<in> set ledger. \<not> same_value (pe_id e) i)"
  by (auto simp: getPendingEdit_def find_None_iff)

lemma getPendingEdit_prefix:
  "prefix l l' \<Longrightarrow> getPendingEdit l i \<noteq> None \<Longrightarrow> getPendingEdit l' i \<noteq> None"
  by (auto simp: getPendingEdit_None prefix_def)

lemma getPendingEdit_known:
  "e \<in> set l \<Longrightarrow> pe_id e = i \<Longrightarrow> \<not> is_object i \<Longrightarrow> getPendingEdit l i \<noteq> None"
  by (auto simp: getPendingEdit_None same_value_def)

lemma register_edits_grows: "prefix ledger (snd (register_edits es ledger))"
proof (induction es arbitrary: ledger)
  case Nil
  then show ?case by simp
next
  case (Cons e es)
  show ?case
  proof (cases "get_prop e ''__proposed_edit__''")
    case (Inl err)
    then show ?thesis by simp
  next
    case (Inr flag)
    show ?thesis
    proof (cases "truthy flag \<and> getPendingEdit ledger (prop_of e ''id'') = None")
      case True
      define entry where "entry = \<lparr>pe_id = prop_of e ''id'', pe_type = prop_of e ''type'',
              pe_path = prop_of e ''path'', pe_originalContent = prop_of e ''originalContent'',
              pe_newContent = prop_of e ''newContent'', pe_status = Pending\<rparr>"
      have 1: "prefix ledger (ledger @ [entry])"
        by simp
      have 2: "prefix (ledger @ [entry]) (snd (register_edits es (ledger @ [entry])))"
        by (rule Cons.IH)
      have "register_edits (e # es) ledger = register_edits es (ledger @ [entry])"
        using True Inr by (simp add: addPendingEdit_def entry_def)
      with 1 2 show ?thesis
        by (metis prefix_order.trans)
    next
      case False
      with Inr Cons.IH show ?thesis by auto
    qed
  qed
qed

lemma register_edits_distinct:
  "distinct (map pe_id ledger) \<Longrightarrow> \<forall>e \<in> set es. \<not> is_object (payload_id e)
     \<Longrightarrow> distinct (map pe_id (snd (register_edits es ledger)))"
proof (induction es arbitrary: ledger)
  case Nil
  then show ?case by simp
next
  case (Cons e es)
  show ?case
  proof (cases "get_prop e ''__proposed_edit__''")
    case (Inl err)
    with Cons.prems show ?thesis by simp
  next
    case (Inr flag)
    show ?thesis
    proof (cases "truthy flag \<and> getPendingEdit ledger (prop_of e ''id'') = None")
      case True
      from Cons.prems(2) have "\<not> is_object (prop_of e ''id'')"
        by (simp add: payload_id_def)
      with True have "prop_of e ''id'' \<notin> pe_id ` set ledger"
        by (auto simp: getPendingEdit_None same_value_def)
      with Cons.prems have "distinct (map pe_id (addPendingEdit
              \<lparr>pe_id = prop_of e ''id'', pe_type = prop_of e ''type'',
               pe_path = prop_of e ''path'', pe_originalContent = prop_of e ''originalContent'',
               pe_newContent = prop_of e ''newContent'', pe_status = Pending\<rparr> ledger))"
        by (simp add: addPendingEdit_def)
      with True Inr Cons.IH Cons.prems(2) show ?thesis by simp
    next
      case False
      with Inr Cons show ?thesis by auto
    qed
  qed
qed

text \<open>Whether the walk ends with an exception depends on the proposals alone.\<close>

lemma register_edits_error: "fst (register_edits es l) = fst (register_edits es l')"
proof (induction es arbitrary: l l')
  case Nil
  then show ?case by simp
next
  case (Cons e es)
  show ?case
  proof (cases "get_prop e ''__proposed_edit__''")
    case (Inl err)
    then show ?thesis by simp
  next
    case (Inr flag)
    have "\<And>a b. fst (register_edits es a) = fst (register_edits es b)"
      by (rule Cons.IH)
    with Inr show ?thesis by simp
  qed
qed

lemma register_edits_append:
  "register_edits (xs @ ys) l =
     (case register_edits xs l of
        (Some e, l') \<Rightarrow> (Some e, l')
      | (None, l') \<Rightarrow> register_edits ys l')"
proof (induction xs arbitrary: l)
  case Nil
  then show ?case by simp
next
  case (Cons e es)
  show ?case
  proof (cases "get_prop e ''__proposed_edit__''")
    case (Inl err)
    then show ?thesis by simp
  next
    case (Inr flag)
    with Cons.IH show ?thesis by simp
  qed
qed

text \<open>
  Proposals that have been registered are skipped in every later ledger, when their ids
  are primitive values.
\<close>

lemma register_edits_again:
  "\<forall>e \<in> set es. \<not> is_object (payload_id e) \<Longrightarrow> prefix (snd (register_edits es l)) l'
     \<Longrightarrow> snd (register_edits es l') = l'"
proof (induction es arbitrary: l)
  case Nil
  then show ?case by simp
next
  case (Cons e es)
  have ids: "\<forall>x \<in> set es. \<not> is_object (payload_id x)" and id: "\<not> is_object (prop_of e ''id'')"
    using Cons.prems(1) by (simp_all add: payload_id_def)
  show ?case
  proof (cases "get_prop e ''__proposed_edit__''")
    case (Inl err)
    then show ?thesis by simp
  next
    case (Inr flag)
    show ?thesis
    proof (cases "truthy flag")
      case False
      with Inr Cons.prems(2) have "prefix (snd (register_edits es l)) l'" by simp
      from Cons.IH [OF ids this] False Inr show ?thesis by simp
    next
      case True
      show ?thesis
      proof (cases "getPendingEdit l (prop_of e ''id'') = None")
        case absent: True
        define entry where "entry = \<lparr>pe_id = prop_of e ''id'', pe_type = prop_of e ''type'',
              pe_path = prop_of e ''path'', pe_originalContent = prop_of e ''originalContent'',
              pe_newContent = prop_of e ''newContent'', pe_status = Pending\<rparr>"
        have r: "register_edits (e # es) l = register_edits es (l @ [entry])"
          using True absent Inr by (simp add: addPendingEdit_def entry_def)
        with Cons.prems(2) have p: "prefix (snd (register_edits es (l @ [entry]))) l'" by simp
        have "prefix (l @ [entry]) (snd (register_edits es (l @ [entry])))"
          by (rule register_edits_grows)
        with p have "prefix (l @ [entry]) l'"
          by (metis prefix_order.trans)
        then have "entry \<in> set l'"
          by (auto simp: prefix_def)
        moreover have "pe_id entry = prop_of e ''id''"
          by (simp add: entry_def)
        ultimately have "getPendingEdit l' (prop_of e ''id'') \<noteq> None"
          using id by (rule getPendingEdit_known)
        with Inr have "register_edits (e # es) l' = register_edits es l'" by auto
        with Cons.IH [OF ids p] show ?thesis by simp
      next
        case present: False
        with Inr True have r: "register_edits (e # es) l = register_edits es l" by auto
        with Cons.prems(2) have p: "prefix (snd (register_edits es l)) l'" by simp
        have "prefix l (snd (register_edits es l))"
          by (rule register_edits_grows)
        with p have "prefix l l'"
          by (metis prefix_order.trans)
        then have "getPendingEdit l' (prop_of e ''id'') \<noteq> None"
          using present by (rule getPendingEdit_prefix)
        with Inr have "register_edits (e # es) l' = register_edits es l'" by auto
        with Cons.IH [OF ids p] show ?thesis by simp
      qed
    qed
  qed
qed

lemma register_edits_longer:
  assumes "\<forall>e \<in> set (xs @ ys). \<not> is_object (payload_id e)"
  shows "snd (register_edits (xs @ ys) (snd (register_edits xs l))) = snd (register_edits (xs @ ys) l)"
proof -
  define l1 where "l1 = snd (register_edits xs l)"
  have ids: "\<forall>e \<in> set xs. \<not> is_object (payload_id e)"
    using assms by simp
  have again: "snd (register_edits xs l1) = l1"
    using register_edits_again [OF ids, of l l1] by (simp add: l1_def)
  have err: "fst (register_edits xs l1) = fst (register_edits xs l)"
    by (rule register_edits_error)
  show ?thesis
  proof (cases "fst (register_edits xs l)")
    case None
    with err again have "register_edits xs l1 = (None, l1)" "register_edits xs l = (None, l1)"
      by (simp_all add: l1_def prod_eq_iff)
    then show ?thesis
      by (simp add: register_edits_append l1_def [symmetric])
  next
    case (Some e)
    with err again have "register_edits xs l1 = (Some e, l1)" "register_edits xs l = (Some e, l1)"
      by (simp_all add: l1_def prod_eq_iff)
    then show ?thesis
      by (simp add: register_edits_append l1_def [symmetric])
  qed
qed

lemma status_latest:
  assumes "v \<in> set (map snd (map_set_all [] (status_entries P text)))"
    and "\<not> is_object (payload_id v)"
  shows "v = last (filter (\<lambda>x. payload_id x = payload_id v) (status_payloads P text))"
proof -
  let ?es = "status_entries P text"
  from assms(1) obtain k where kv: "(k, v) \<in> set (map_set_all [] ?es)" by auto
  have "\<forall>e \<in> set (map_set_all [] ?es). payload_id (snd e) = fst e"
    by (rule map_set_all_ids) (auto simp: status_entries_id)
  with kv have k: "payload_id v = k" by auto
  from assms(2) k have "\<not> is_object k" by simp
  with kv have l: "(k, v) = last (filter (\<lambda>e. fst e = k) ?es)"
    by (rule map_set_all_latest)
  have "k \<in> fst ` set ?es"
    using kv map_set_all_keys [of "[]" ?es] by (metis empty_set image_empty imageI fst_conv sup_bot.left_neutral)
  then have ne: "filter (\<lambda>e. fst e = k) ?es \<noteq> []"
    by (auto simp: filter_empty_conv)
  have "map snd (filter (\<lambda>e. fst e = k) ?es) = filter (\<lambda>x. payload_id x = k) (map snd ?es)"
  proof -
    have "\<forall>e \<in> set ?es. (fst e = k) = (payload_id (snd e) = k)"
      by (auto simp: status_entries_id)
    then show ?thesis
      by (induction ?es) (auto simp: filter_map comp_def cong: filter_cong)
  qed
  then have "last (filter (\<lambda>x. payload_id x = k) (status_payloads P text)) = snd (last (filter (\<lambda>e. fst e = k) ?es))"
    using ne by (simp add: status_payloads_def last_map [symmetric])
  with l k show ?thesis by (metis snd_conv)
qed

lemma short_distinct: "length xs \<le> 1 \<Longrightarrow> distinct xs"
  by (cases xs) auto

lemma is_Str_not_object: "is_Str k \<Longrightarrow> \<not> is_object k"
  by (cases k) simp_all

lemma sortable_ids_tl: "sortable_ids ks \<Longrightarrow> \<forall>k \<in> set (tl ks). is_Str k"
proof (cases ks)
  case Nil
  then show ?thesis by simp
next
  case (Cons k rest)
  assume "sortable_ids ks"
  with Cons show ?thesis by (cases rest) (simp_all add: list_all_iff)
qed

lemma all_Str_sortable: "\<forall>k \<in> set ks. is_Str k \<Longrightarrow> sortable_ids ks"
proof (cases ks)
  case Nil
  then show ?thesis by simp
next
  case (Cons k rest)
  assume "\<forall>k \<in> set ks. is_Str k"
  with Cons show ?thesis by (cases rest) (simp_all add: list_all_iff is_Str_to_string)
qed

lemma distinct_keys_distinct_tl:
  assumes "distinct_keys m" and "\<forall>e \<in> set (tl m). \<not> is_object (fst e)"
  shows "distinct (map fst m)"
proof (cases m)
  case Nil
  then show ?thesis by simp
next
  case (Cons e r)
  obtain k v where e: "e = (k, v)" by (cases e)
  from assms Cons e have dk: "distinct_keys r" and nk: "\<forall>x \<in> set r. \<not> same_value k (fst x)"
    and no: "\<forall>x \<in> set r. \<not> is_object (fst x)"
    by simp_all
  have "distinct (map fst r)"
    using dk no by (rule distinct_keys_distinct)
  moreover have "k \<notin> fst ` set r"
  proof
    assume "k \<in> fst ` set r"
    then obtain x where x: "x \<in> set r" and k: "k = fst x" by auto
    with no have "\<not> is_object k" by simp
    with k have "same_value k (fst x)" by (simp add: same_value_def)
    with nk x show False by simp
  qed
  ultimately show ?thesis using Cons e by simp
qed

lemma status_ids_distinct:
  assumes "sort_statuses lc (map snd (map_set_all [] (status_entries P text))) = Inr r"
  shows "distinct (map payload_id r)"
proof -
  let ?m = "map_set_all [] (status_entries P text)"
  have ids: "map payload_id (map snd ?m) = map fst ?m"
    by (rule status_map_ids)
  have dk: "distinct_keys ?m"
    by (rule map_set_all_distinct_keys) simp
  have "sortable_ids (map fst ?m)"
    using sort_statuses_Inr(3) [OF assms] by (simp only: ids)
  then have "\<forall>k \<in> set (tl (map fst ?m)). is_Str k"
    by (rule sortable_ids_tl)
  then have "\<forall>e \<in> set (tl ?m). \<not> is_object (fst e)"
    by (simp add: map_tl [symmetric] is_Str_not_object)
  with dk have "distinct (map fst ?m)"
    by (rule distinct_keys_distinct_tl)
  then have "distinct (map payload_id (map snd ?m))" by (simp only: ids)
  with sort_statuses_Inr(2) [OF assms, of payload_id] show ?thesis by blast
qed

lemma status_ids_set:
  assumes "sort_statuses lc (map snd (map_set_all [] (status_entries P text))) = Inr r"
  shows "set (map payload_id r) = fst ` set (status_entries P text)"
proof -
  let ?m = "map_set_all [] (status_entries P text)"
  have "set (map payload_id r) = payload_id ` set r"
    by (simp only: set_map)
  also have "\<dots> = payload_id ` set (map snd ?m)"
    by (simp only: sort_statuses_Inr(1) [OF assms])
  also have "\<dots> = set (map payload_id (map snd ?m))"
    by (simp only: set_map)
  also have "\<dots> = set (map fst ?m)"
    by (simp only: status_map_ids)
  also have "\<dots> = fst ` set (status_entries P text)"
    using map_set_all_keys [of "[]" "status_entries P text"] by simp
  finally show ?thesis .
qed

lemma status_entries_append: "prefix (status_entries P T) (status_entries P (T @ sfx))"
  unfolding status_entries_def by (intro map_filter_prefix exec_all_append)

text \<open>The decoder returns on every text whose status payloads have string ids.\<close>

lemma decode_returns_on_string_ids:
  assumes "\<forall>v \<in> set (status_payloads P text). is_Str (payload_id v)"
  shows "\<exists>r. parseMessageContent lc P text = Inr r"
proof -
  let ?es = "status_entries P text"
  let ?m = "map_set_all [] ?es"
  have "\<forall>k \<in> set (map fst ?m). is_Str k"
  proof
    fix k assume "k \<in> set (map fst ?m)"
    then have "k \<in> fst ` set ?es"
      using map_set_all_keys [of "[]" ?es] by simp
    then obtain e where e: "e \<in> set ?es" and k: "k = fst e" by (rule imageE)
    have "payload_id (snd e) = fst e"
      using e status_entries_id [of "fst e" "snd e" P "text"] by simp
    moreover have "snd e \<in> set (status_payloads P text)"
      using e by (simp add: status_payloads_def)
    ultimately show "is_Str k"
      using assms k by auto
  qed
  then have "sortable_ids (map fst ?m)"
    by (rule all_Str_sortable)
  then have "sortable_ids (map payload_id (map snd ?m))"
    by (simp only: status_map_ids)
  then obtain vals where "sort_statuses lc (map snd ?m) = Inr vals"
    using sort_statuses_returns by blast
  then show ?thesis by (rule decode_returns)
qed

text \<open>
  Claim C5, amended. When the decoder returns on \<open>T @ sfx\<close>, it returns on \<open>T\<close> as
  well; the proposals decoded from \<open>T\<close> are an initial segment of those decoded from
  \<open>T @ sfx\<close>; every status id of \<open>T\<close> is a status id of \<open>T @ sfx\<close>; in both results
  the status payloads have pairwise different ids, and a status payload whose id is a
  primitive value is the last one of its id in the text. The proposals are not
  deduplicated by the decoder but by the registration, which never changes an entry
  that is already in the ledger. When the ids of the proposals are primitive values
  (strings, as the tool writes them), registering the proposals of \<open>T\<close> once more
  changes nothing, registering those of \<open>T @ sfx\<close> after those of \<open>T\<close> gives the same
  ledger as registering those of \<open>T @ sfx\<close> alone, and the ids of the ledger stay
  pairwise different.
\<close>

theorem decode_longer_text:
  assumes "parseMessageContent lc JSON_parse (T @ sfx) = Inr r2"
  shows "\<exists>r1. parseMessageContent lc JSON_parse T = Inr r1
     \<and> prefix (edits r1) (edits r2)
     \<and> set (map payload_id (toolStatuses r1)) \<subseteq> set (map payload_id (toolStatuses r2))
     \<and> distinct (map payload_id (toolStatuses r1))
     \<and> distinct (map payload_id (toolStatuses r2))
     \<and> (\<forall>v \<in> set (toolStatuses r2). \<not> is_object (payload_id v) \<longrightarrow>
           v = last (filter (\<lambda>x. payload_id x = payload_id v)
                        (status_payloads JSON_parse (T @ sfx))))
     \<and> (\<forall>ledger. prefix ledger (snd (register_edits (edits r1) ledger))
           \<and> prefix (snd (register_edits (edits r1) ledger))
                    (snd (register_edits (edits r2) (snd (register_edits (edits r1) ledger)))))
     \<and> (\<forall>ledger. (\<forall>e \<in> set (edits r2). \<not> is_object (payload_id e)) \<longrightarrow>
           snd (register_edits (edits r1) (snd (register_edits (edits r1) ledger)))
             = snd (register_edits (edits r1) ledger)
           \<and> snd (register_edits (edits r2) (snd (register_edits (edits r1) ledger)))
             = snd (register_edits (edits r2) ledger)
           \<and> (distinct (map pe_id ledger) \<longrightarrow>
                distinct (map pe_id (snd (register_edits (edits r2) ledger)))))"
proof -
  let ?e1 = "status_entries JSON_parse T" and ?e2 = "status_entries JSON_parse (T @ sfx)"
  let ?m1 = "map_set_all [] ?e1" and ?m2 = "map_set_all [] ?e2"
  have s2: "sort_statuses lc (map snd ?m2) = Inr (toolStatuses r2)"
    and ed2: "edits r2 = List.map_filter JSON_parse (exec_all DIFF_BLOCK (T @ sfx))"
    using decode_Inr [OF assms] by simp_all
  obtain more where more: "?e2 = ?e1 @ more"
    using status_entries_append [of JSON_parse T sfx] by (auto simp: prefix_def)
  then have m2: "?m2 = map_set_all ?m1 more"
    by (simp add: map_set_all_append)
  have order: "prefix (map fst ?m1) (map fst ?m2)"
    unfolding m2 by (rule map_set_all_key_order)
  have ids1: "map payload_id (map snd ?m1) = map fst ?m1"
    and ids2: "map payload_id (map snd ?m2) = map fst ?m2"
    by (rule status_map_ids)+
  have "sortable_ids (map fst ?m2)"
    using sort_statuses_Inr(3) [OF s2] by (simp only: ids2)
  with order have "sortable_ids (map fst ?m1)"
    by (rule sortable_ids_prefix)
  then have "sortable_ids (map payload_id (map snd ?m1))"
    by (simp only: ids1)
  then obtain vals1 where s1: "sort_statuses lc (map snd ?m1) = Inr vals1"
    using sort_statuses_returns by blast
  then obtain r1 where r1: "parseMessageContent lc JSON_parse T = Inr r1"
    using decode_returns by blast
  have t1: "sort_statuses lc (map snd ?m1) = Inr (toolStatuses r1)"
    and ed1: "edits r1 = List.map_filter JSON_parse (exec_all DIFF_BLOCK T)"
    using decode_Inr [OF r1] by simp_all
  have p: "prefix (edits r1) (edits r2)"
    unfolding ed1 ed2 by (intro map_filter_prefix exec_all_append)
  have sub: "set (map payload_id (toolStatuses r1)) \<subseteq> set (map payload_id (toolStatuses r2))"
    using status_ids_set [OF t1] status_ids_set [OF s2] more by auto
  have d1: "distinct (map payload_id (toolStatuses r1))"
    and d2: "distinct (map payload_id (toolStatuses r2))"
    using status_ids_distinct [OF t1] status_ids_distinct [OF s2] by simp_all
  have latest: "\<forall>v \<in> set (toolStatuses r2). \<not> is_object (payload_id v) \<longrightarrow>
           v = last (filter (\<lambda>x. payload_id x = payload_id v)
                        (status_payloads JSON_parse (T @ sfx)))"
  proof (intro ballI impI)
    fix v assume "v \<in> set (toolStatuses r2)" and n: "\<not> is_object (payload_id v)"
    then have "v \<in> set (map snd ?m2)"
      using sort_statuses_Inr(1) [OF s2] by simp
    then show "v = last (filter (\<lambda>x. payload_id x = payload_id v)
                        (status_payloads JSON_parse (T @ sfx)))"
      using n by (rule status_latest)
  qed
  have grows: "\<forall>ledger. prefix ledger (snd (register_edits (edits r1) ledger))
           \<and> prefix (snd (register_edits (edits r1) ledger))
                    (snd (register_edits (edits r2) (snd (register_edits (edits r1) ledger))))"
    by (simp add: register_edits_grows)
  have ledger: "\<forall>ledger. (\<forall>e \<in> set (edits r2). \<not> is_object (payload_id e)) \<longrightarrow>
           snd (register_edits (edits r1) (snd (register_edits (edits r1) ledger)))
             = snd (register_edits (edits r1) ledger)
           \<and> snd (register_edits (edits r2) (snd (register_edits (edits r1) ledger)))
             = snd (register_edits (edits r2) ledger)
           \<and> (distinct (map pe_id ledger) \<longrightarrow>
                distinct (map pe_id (snd (register_edits (edits r2) ledger))))"
  proof (intro allI impI)
    fix ledger
    assume ids2: "\<forall>e \<in> set (edits r2). \<not> is_object (payload_id e)"
    from p obtain rest where rest: "edits r2 = edits r1 @ rest"
      by (auto simp: prefix_def)
    with ids2 have ids1: "\<forall>e \<in> set (edits r1). \<not> is_object (payload_id e)"
      by simp
    have a: "snd (register_edits (edits r1) (snd (register_edits (edits r1) ledger)))
             = snd (register_edits (edits r1) ledger)"
      using register_edits_again [OF ids1, of ledger "snd (register_edits (edits r1) ledger)"]
      by simp
    have b: "snd (register_edits (edits r2) (snd (register_edits (edits r1) ledger)))
             = snd (register_edits (edits r2) ledger)"
      using register_edits_longer [of "edits r1" rest ledger] ids2 rest by simp
    have c: "distinct (map pe_id ledger) \<longrightarrow>
                distinct (map pe_id (snd (register_edits (edits r2) ledger)))"
      using register_edits_distinct [OF _ ids2] by blast
    from a b c show "snd (register_edits (edits r1) (snd (register_edits (edits r1) ledger)))
             = snd (register_edits (edits r1) ledger)
           \<and> snd (register_edits (edits r2) (snd (register_edits (edits r1) ledger)))
             = snd (register_edits (edits r2) ledger)
           \<and> (distinct (map pe_id ledger) \<longrightarrow>
                distinct (map pe_id (snd (register_edits (edits r2) ledger))))"
      by blast
  qed
  from r1 p sub d1 d2 latest grows ledger show ?thesis by blast
qed

theorem decode_longer_text_witness:
  "parseMessageContent compare_codes plain_parse (plain_first_chunk @ plain_rest)
     = Inr \<lparr>cleanText = ''Ok.'' @ nl @ nl @ nl @ nl @ nl @ nl @ nl @ nl
              @ ''I've prepared 1 edit(s) for **app.js**. Please review and accept or reject the changes above.'',
            edits = [plain_proposal], toolStatuses = [plain_success]\<rparr>
   \<and> parseMessageContent compare_codes plain_parse plain_first_chunk
     = Inr \<lparr>cleanText = ''Ok.'', edits = [], toolStatuses = [plain_running]\<rparr>
   \<and> payload_id plain_running = Str ''status-t1''
   \<and> payload_id plain_success = Str ''status-t1''
   \<and> payload_id plain_proposal = Str ''edit-17''
   \<and> snd (register_edits [plain_proposal] (snd (register_edits [] []))) = [plain_entry Pending]
   \<and> snd (register_edits [plain_proposal] [plain_entry Applied]) = [plain_entry Applied]
   \<and> chunks plain_turn =
        [plain_first_chunk,
         plain_first_chunk @ ''[TOOL_STATUS]'' @ JSON_stringify plain_success @ ''[/TOOL_STATUS]'',
         plain_first_chunk @ plain_rest]"
proof -
  have full: "parseMessageContent compare_codes plain_parse (plain_first_chunk @ plain_rest)
     = Inr \<lparr>cleanText = ''Ok.'' @ nl @ nl @ nl @ nl @ nl @ nl @ nl @ nl
              @ ''I've prepared 1 edit(s) for **app.js**. Please review and accept or reject the changes above.'',
            edits = [plain_proposal], toolStatuses = [plain_success]\<rparr>"
    by code_simp
  have first: "parseMessageContent compare_codes plain_parse plain_first_chunk
     = Inr \<lparr>cleanText = ''Ok.'', edits = [], toolStatuses = [plain_running]\<rparr>"
    by code_simp
  have ids: "payload_id plain_running = Str ''status-t1''" "payload_id plain_success = Str ''status-t1''"
    "payload_id plain_proposal = Str ''edit-17''"
    by code_simp+
  have reg: "snd (register_edits [plain_proposal] (snd (register_edits [] []))) = [plain_entry Pending]"
    "snd (register_edits [plain_proposal] [plain_entry Applied]) = [plain_entry Applied]"
    by code_simp+
  have ch: "chunks plain_turn =
        [plain_first_chunk,
         plain_first_chunk @ ''[TOOL_STATUS]'' @ JSON_stringify plain_success @ ''[/TOOL_STATUS]'',
         plain_first_chunk @ plain_rest]"
    by code_simp
  from decode_longer_text [OF full]
  obtain r1 where "parseMessageContent compare_codes plain_parse plain_first_chunk = Inr r1"
    by blast
  with first have "parseMessageContent compare_codes plain_parse plain_first_chunk
     = Inr \<lparr>cleanText = ''Ok.'', edits = [], toolStatuses = [plain_running]\<rparr>"
    by simp
  with full ids reg ch show ?thesis by blast
qed

text \<open>
  Claim C5 as stated fails in three ways. Two proposals that carry the same id (two tool
  calls in the same millisecond get the same \<open>edit-\<close> id) are both in the decoded list;
  only the registration keeps the first and skips the second. A proposal whose id is an
  array is registered again at every decoding, since the id decoded now is not
  identical to the one decoded before. And on a text with two statuses whose ids are
  numbers the decoder does not return a result at all: the comparator of the sort throws.
\<close>

theorem decoded_proposals_repeat_an_id:
  "parseMessageContent compare_codes (JSON_parse_among [twin_a, twin_b]) twin_text
     = Inr \<lparr>cleanText = [], edits = [twin_a, twin_b], toolStatuses = []\<rparr>
   \<and> map payload_id [twin_a, twin_b] = [Str ''edit-17'', Str ''edit-17'']
   \<and> map pe_path (snd (register_edits [twin_a, twin_b] [])) = [Str ''/w/a'']
   \<and> parseMessageContent compare_codes (JSON_parse_among [listed_proposal]) (diff_block listed_proposal)
     = Inr \<lparr>cleanText = [], edits = [listed_proposal], toolStatuses = []\<rparr>
   \<and> map pe_id (snd (register_edits [listed_proposal] (snd (register_edits [listed_proposal] []))))
     = [Arr [Num ''1''], Arr [Num ''1'']]
   \<and> exec_all TOOL_STATUS numbered_text
     = [JSON_stringify (status_payload (Num ''1'')), JSON_stringify (status_payload (Num ''2''))]
   \<and> parseMessageContent compare_codes numbered_parse numbered_text = Inl TypeError"
proof -
  have 1: "parseMessageContent compare_codes (JSON_parse_among [twin_a, twin_b]) twin_text
     = Inr \<lparr>cleanText = [], edits = [twin_a, twin_b], toolStatuses = []\<rparr>"
    by code_simp
  have 2: "map payload_id [twin_a, twin_b] = [Str ''edit-17'', Str ''edit-17'']"
    by code_simp
  have 3: "map pe_path (snd (register_edits [twin_a, twin_b] [])) = [Str ''/w/a'']"
    by code_simp
  have 4: "parseMessageContent compare_codes (JSON_parse_among [listed_proposal]) (diff_block listed_proposal)
     = Inr \<lparr>cleanText = [], edits = [listed_proposal], toolStatuses = []\<rparr>"
    by code_simp
  have 5: "map pe_id (snd (register_edits [listed_proposal] (snd (register_edits [listed_proposal] []))))
     = [Arr [Num ''1''], Arr [Num ''1'']]"
    by code_simp
  have 6: "exec_all TOOL_STATUS numbered_text
     = [JSON_stringify (status_payload (Num ''1'')), JSON_stringify (status_payload (Num ''2''))]"
    by code_simp
  have 7: "parseMessageContent compare_codes numbered_parse numbered_text = Inl TypeError"
    by code_simp
  from 1 2 3 4 5 6 7 show ?thesis by blast
qed

text \<open>
  The sort returns for a first id that is not a string, and throws for a later one.
\<close>

lemma sort_statuses_by_position:
  "sort_statuses compare_codes [status_payload (Num ''1''), status_payload (Str ''a'')]
     = Inr [status_payload (Num ''1''), status_payload (Str ''a'')]"
  "sort_statuses compare_codes [status_payload (Str ''a''), status_payload (Num ''1'')] = Inl TypeError"
  "sort_statuses compare_codes [status_payload (Str ''b''), status_payload (Str ''a'')]
     = Inr [status_payload (Str ''a''), status_payload (Str ''b'')]"
  "sort_statuses compare_codes [status_payload (Num ''1'')] = Inr [status_payload (Num ''1'')]"
  by code_simp+

subsection \<open>Patches\<close>

lemma replace_str_no_match: "\<not> includes_str c old_text \<Longrightarrow> replace_str c old_text new_text = c"
  by (cases "split_first old_text c") (simp_all add: includes_str_def replace_str_def)

lemma apply_edits_content:
  "fst (apply_edits es (c, n)) = foldl (\<lambda>c e. replace_str c (fst e) (snd e)) c es"
proof (induction es arbitrary: c n)
  case Nil
  then show ?case by simp
next
  case (Cons e es)
  obtain ot nw where e: "e = (ot, nw)" by (cases e)
  with Cons show ?case by (simp add: replace_str_no_match)
qed

lemma apply_edits_count: "n \<le> snd (apply_edits es (c, n))"
proof (induction es arbitrary: c n)
  case Nil
  then show ?case by simp
next
  case (Cons e es)
  obtain ot nw where e: "e = (ot, nw)" by (cases e)
  show ?case
  proof (cases "includes_str c ot")
    case True
    have "Suc n \<le> snd (apply_edits es (replace_str c ot nw, Suc n))" by (rule Cons.IH)
    with True e show ?thesis by simp
  next
    case False
    with e Cons.IH show ?thesis by simp
  qed
qed

lemma apply_edits_no_match:
  "snd (apply_edits es (c, 0)) = 0 \<longleftrightarrow> (\<forall>e \<in> set es. \<not> includes_str c (fst e))"
proof (induction es)
  case Nil
  then show ?case by simp
next
  case (Cons e es)
  obtain ot nw where e: "e = (ot, nw)" by (cases e)
  show ?case
  proof (cases "includes_str c ot")
    case True
    have "1 \<le> snd (apply_edits es (replace_str c ot nw, 1))" by (rule apply_edits_count)
    with True e show ?thesis by auto
  next
    case False
    with e Cons show ?thesis by simp
  qed
qed

lemma edit_file_result:
  assumes "readFile h (full_path h cwp (ti_path inp)) d = Inr c"
  shows "executeAITool h cwp now ''edit_file'' inp d =
     (if \<forall>e \<in> set (ti_edits inp). \<not> includes_str c (fst e)
      then warning_sign @ '' No matches found in '' @ ti_path inp @ ''. The old_text must match exactly.''
      else diff_block (proposedEdit (''edit-'' @ now) ''edit'' (full_path h cwp (ti_path inp)) (ti_path inp) c
                         (foldl (\<lambda>c e. replace_str c (fst e) (snd e)) c (ti_edits inp)))
           @ ''I've prepared '' @ show_nat (snd (apply_edits (ti_edits inp) (c, 0))) @ '' edit(s) for **''
           @ ti_path inp @ ''**. Please review and accept or reject the changes above.'')"
proof -
  obtain newC cnt where a: "apply_edits (ti_edits inp) (c, 0) = (newC, cnt)"
    by (cases "apply_edits (ti_edits inp) (c, 0)")
  have newC: "newC = foldl (\<lambda>c e. replace_str c (fst e) (snd e)) c (ti_edits inp)"
    using apply_edits_content [of "ti_edits inp" c 0] a by simp
  have cnt: "cnt = 0 \<longleftrightarrow> (\<forall>e \<in> set (ti_edits inp). \<not> includes_str c (fst e))"
    using apply_edits_no_match [of "ti_edits inp" c] a by simp
  show ?thesis
    using assms a newC cnt by (simp add: executeAITool_def Let_def)
qed

text \<open>
  The replacement text is not taken literally: \<open>String.prototype.replace\<close> expands the
  dollar patterns in it.
\<close>

lemma replacement_text_is_a_template:
  "replace_str ''total = 1'' ''1'' ''$$5'' = ''total = $5''"
  "replace_str ''total = 1'' ''1'' ''[$&]'' = ''total = [1]''"
  by code_simp+

text \<open>
  The patch of app.js from the specification's scenario: one replacement matches, the
  proposal is decoded from the text of the round and one pending entry is registered,
  with the content after the replacement.
\<close>

lemma plain_patch_registers_one:
  "(case parseMessageContent compare_codes plain_parse (fullText plain_turn) of
      Inl e \<Rightarrow> None
    | Inr r \<Rightarrow> Some (snd (register_edits (edits r) [])))
   = Some [\<lparr>pe_id = Str ''edit-17'', pe_type = Str ''edit'', pe_path = Str ''/w/app.js'',
            pe_originalContent = Str ''let x = 1'', pe_newContent = Str ''let y = 1'',
            pe_status = Pending\<rparr>]"
  by code_simp

text \<open>
  Claim C6, evaluated. The file holds the text of the closing tag. One replacement
  matches and the tool returns a proposal, but the decoder ends the payload at the
  closing tag inside the content: the body handed to \<open>JSON.parse\<close> is the first 125 of
  the 184 characters of the payload, no proposal is decoded and nothing is registered.
\<close>

theorem proposal_with_closing_tag_is_lost:
  "apply_edits (ti_edits tagged_input) (''see [/DIFF_BLOCK] here'', 0) = (''note [/DIFF_BLOCK] here'', 1)
   \<and> executeAITool mem_host (Some ''/w'') ''17'' ''edit_file'' tagged_input tagged_disk
       = diff_block tagged_proposal
         @ ''I've prepared 1 edit(s) for **notes.md**. Please review and accept or reject the changes above.''
   \<and> toolResults tagged_turn = [(''t1'', edit_acknowledgement)]
   \<and> exec_all DIFF_BLOCK (fullText tagged_turn) = [take 125 (JSON_stringify tagged_proposal)]
   \<and> length (JSON_stringify tagged_proposal) = 184
   \<and> (case parseMessageContent compare_codes tagged_parse (fullText tagged_turn) of
         Inl e \<Rightarrow> None
       | Inr r \<Rightarrow> Some (edits r, toolStatuses r, snd (register_edits (edits r) [])))
       = Some ([], [tagged_success], [])"
proof -
  have 1: "apply_edits (ti_edits tagged_input) (''see [/DIFF_BLOCK] here'', 0) = (''note [/DIFF_BLOCK] here'', 1)"
    by code_simp
  have 2: "executeAITool mem_host (Some ''/w'') ''17'' ''edit_file'' tagged_input tagged_disk
       = diff_block tagged_proposal
         @ ''I've prepared 1 edit(s) for **notes.md**. Please review and accept or reject the changes above.''"
    by code_simp
  have 3: "toolResults tagged_turn = [(''t1'', edit_acknowledgement)]"
    by code_simp
  have 4: "exec_all DIFF_BLOCK (fullText tagged_turn) = [take 125 (JSON_stringify tagged_proposal)]"
    by code_simp
  have 5: "length (JSON_stringify tagged_proposal) = 184"
    by code_simp
  have 6: "(case parseMessageContent compare_codes tagged_parse (fullText tagged_turn) of
         Inl e \<Rightarrow> None
       | Inr r \<Rightarrow> Some (edits r, toolStatuses r, snd (register_edits (edits r) [])))
       = Some ([], [tagged_success], [])"
    by code_simp
  from 1 2 3 4 5 6 show ?thesis by blast
qed

subsection \<open>What the provider is sent\<close>

text \<open>
  Claim C7, evaluated. After a round with one tool call the message of the model holds
  two status markers and a proposal marker. With the next request
  \<open>getConversationHistory\<close> replays that text unchanged as an assistant turn, so the
  messages sent to the provider contain markers; the tool result of the same round was
  sent as the short acknowledgement, without a marker.
\<close>

theorem history_replays_markers:
  "getConversationHistory replay_store = [(ApiUser, ''rename x''), (ApiAssistant, fullText plain_turn)]
   \<and> initial_apiMessages (getConversationHistory replay_store) [] ''thanks''
       = [(ApiUser, Text ''rename x''), (ApiAssistant, Text (fullText plain_turn)), (ApiUser, Text ''thanks'')]
   \<and> exec_all TOOL_STATUS (fullText plain_turn) = [JSON_stringify plain_running, JSON_stringify plain_success]
   \<and> exec_all DIFF_BLOCK (fullText plain_turn) = [JSON_stringify plain_proposal]
   \<and> list_ex has_marker (provider_texts (initial_apiMessages (getConversationHistory replay_store) [] ''thanks''))
   \<and> toolResults plain_turn = [(''t1'', edit_acknowledgement)]
   \<and> \<not> has_marker edit_acknowledgement"
proof -
  have 1: "getConversationHistory replay_store = [(ApiUser, ''rename x''), (ApiAssistant, fullText plain_turn)]"
    by code_simp
  have 2: "initial_apiMessages [(ApiUser, ''rename x''), (ApiAssistant, fullText plain_turn)] [] ''thanks''
       = [(ApiUser, Text ''rename x''), (ApiAssistant, Text (fullText plain_turn)), (ApiUser, Text ''thanks'')]"
    by (simp add: initial_apiMessages_def List.map_filter_simps)
  have 3: "exec_all TOOL_STATUS (fullText plain_turn) = [JSON_stringify plain_running, JSON_stringify plain_success]"
    by code_simp
  have 4: "exec_all DIFF_BLOCK (fullText plain_turn) = [JSON_stringify plain_proposal]"
    by code_simp
  have 5: "has_marker (fullText plain_turn)"
    using 3 by (simp add: has_marker_def)
  have 6: "list_ex has_marker (provider_texts
             [(ApiUser, Text ''rename x''), (ApiAssistant, Text (fullText plain_turn)), (ApiUser, Text ''thanks'')])"
    using 5 by (simp add: provider_texts_def)
  have 7: "toolResults plain_turn = [(''t1'', edit_acknowledgement)]"
    by code_simp
  have 8: "\<not> has_marker edit_acknowledgement"
    by code_simp
  from 1 2 3 4 6 7 8 show ?thesis by simp
qed

end
